theory Spec2Isabelle
  imports Main "HOL-Library.Sublist"
begin

section \<open>Python values and exceptions\<close>

text \<open>
  The exception classes that \<^verbatim>\<open>levyt/records.py\<close> raises or catches, plus the base
  class \<^verbatim>\<open>Exception\<close> and every other subclass of it, such as one the caller defines.
  An exception instance is its class together with its message.

  Such another subclass comes with what calling it without arguments does, since
  \<^verbatim>\<open>raise cls\<close> makes that call: it either constructs an instance (with the given
  message), or it fails with an exception of its own, as a constructor that needs an
  argument does with \<^verbatim>\<open>TypeError\<close>.
\<close>

datatype exc_class =
    KeyError | IndexError | StopIteration | ValueError | TypeError
  | AssertionError | ExceptionBase | UserException string noargs_call
and noargs_call = Constructs string | Fails exc
and exc = Exc (exc_class: exc_class) (message: string)

text \<open>
  \<^verbatim>\<open>cls()\<close> for an exception class: the new instance, or the exception the call raises.
  The built-in classes listed above accept an empty argument list.
\<close>

definition instantiate :: "exc_class \<Rightarrow> exc + exc" where
  "instantiate cl =
     (case cl of
        UserException name (Constructs msg) \<Rightarrow> Inr (Exc cl msg)
      | UserException name (Fails err) \<Rightarrow> Inl err
      | _ \<Rightarrow> Inr (Exc cl []))"

text \<open>Python's \<^verbatim>\<open>xs[i]\<close> on a list: a negative index counts from the end.\<close>

definition list_getitem :: "'a list \<Rightarrow> int \<Rightarrow> exc + 'a" where
  "list_getitem xs i =
     (if i < - int (length xs) \<or> int (length xs) \<le> i
      then Inl (Exc IndexError ''list index out of range'')
      else if i < 0 then Inr (xs ! nat (i + int (length xs)))
      else Inr (xs ! nat i))"

text \<open>\<^verbatim>\<open>xs.index(x)\<close>: the first position of \<open>x\<close>, \<^verbatim>\<open>ValueError\<close> when absent.\<close>

fun list_index :: "'a list \<Rightarrow> 'a \<Rightarrow> exc + nat" where
  "list_index [] x = Inl (Exc ValueError ''x not in list'')"
| "list_index (y # ys) x =
     (if y = x then Inr 0
      else (case list_index ys x of Inl e \<Rightarrow> Inl e | Inr n \<Rightarrow> Inr (Suc n)))"

section \<open>Record\<close>

text \<open>
  \<^verbatim>\<open>class Record\<close> has the two slots \<^verbatim>\<open>_keys\<close> and \<^verbatim>\<open>_values\<close>. The cell values are of
  an arbitrary type \<open>'v\<close>.
\<close>

record 'v Record =
  Record_keys :: "string list"
  Record_values :: "'v list"

text \<open>
  What a call of this module can hand back to its caller: \<^verbatim>\<open>None\<close>, a cell value, an
  exception instance, a class, a Record, or the dictionary of a Record (the flag says
  whether it is an \<^verbatim>\<open>OrderedDict\<close>). The \<^verbatim>\<open>default\<close> arguments range over the same type.
\<close>

datatype pyclass = ExceptionClass exc_class | OtherClass string

datatype 'v pyobj =
    PyNone
  | PyValue 'v
  | PyExcInstance exc
  | PyClass pyclass
  | PyRecord "'v Record"
  | PyDict bool "(string \<times> 'v) list"

datatype record_key = Index int | Name string

text \<open>\<^verbatim>\<open>Record.__init__\<close>: the assertion on the two lengths.\<close>

definition Record_init :: "string list \<Rightarrow> 'v list \<Rightarrow> exc + 'v Record" where
  "Record_init ks vs =
     (if length ks = length vs
      then Inr \<lparr>Record_keys = ks, Record_values = vs\<rparr>
      else Inl (Exc AssertionError
                  ''record must have the same number of keys as values''))"

definition quoted :: "string \<Rightarrow> string" where
  "quoted s = [CHR 0x27] @ s @ [CHR 0x27]"

text \<open>\<^verbatim>\<open>Record.__getitem__\<close>.\<close>

definition Record_getitem :: "'v Record \<Rightarrow> record_key \<Rightarrow> exc + 'v" where
  "Record_getitem self key =
     (case key of
        Index i \<Rightarrow> list_getitem (Record_values self) i
      | Name k \<Rightarrow>
          if k \<in> set (Record_keys self) then
            if count_list (Record_keys self) k > 1 then
              Inl (Exc KeyError (''Record contains multiple '' @ quoted k @ '' fields.''))
            else
              (case list_index (Record_keys self) k of
                 Inl e \<Rightarrow> Inl e
               | Inr index \<Rightarrow> list_getitem (Record_values self) (int index))
          else Inl (Exc KeyError (''Record contains no '' @ quoted k @ '' field.'')))"

text \<open>\<^verbatim>\<open>Record.get\<close>: only a \<^verbatim>\<open>KeyError\<close> is turned into the default.\<close>

definition Record_get :: "'v Record \<Rightarrow> record_key \<Rightarrow> 'v pyobj \<Rightarrow> exc + 'v pyobj" where
  "Record_get self key dflt =
     (case Record_getitem self key of
        Inr v \<Rightarrow> Inr (PyValue v)
      | Inl e \<Rightarrow> if exc_class e = KeyError then Inr dflt else Inl e)"

text \<open>
  \<^verbatim>\<open>Record.dict\<close>: \<^verbatim>\<open>dict(zip(keys, values))\<close>. A repeated key keeps the place of its
  first occurrence and the value of its last one.
\<close>

fun dict_setitem :: "(string \<times> 'v) list \<Rightarrow> string \<Rightarrow> 'v \<Rightarrow> (string \<times> 'v) list" where
  "dict_setitem [] k v = [(k, v)]"
| "dict_setitem ((k', v') # d) k v =
     (if k' = k then (k, v) # d else (k', v') # dict_setitem d k v)"

definition Record_dict :: "'v Record \<Rightarrow> bool \<Rightarrow> 'v pyobj" where
  "Record_dict self ordered =
     PyDict ordered
       (foldl (\<lambda>d (k, v). dict_setitem d k v) []
          (zip (Record_keys self) (Record_values self)))"

section \<open>The producer\<close>

text \<open>
  \<^verbatim>\<open>Collection.__init__\<close> is given an iterator of Records (\<^verbatim>\<open>rows: Iterator[Record]\<close>). The
  model of such a one-shot producer over finitely many records: the records still to be
  delivered, and the number of times \<^verbatim>\<open>next\<close> has been called on it (every call counts,
  also one that is answered with \<^verbatim>\<open>StopIteration\<close>).
\<close>

record 'v producer =
  remaining :: "'v Record list"
  pulls :: nat

text \<open>\<^verbatim>\<open>iter(xs)\<close> for a list \<open>xs\<close>: a fresh iterator.\<close>

definition py_iter :: "'v Record list \<Rightarrow> 'v producer" where
  "py_iter xs = \<lparr>remaining = xs, pulls = 0\<rparr>"

text \<open>\<^verbatim>\<open>next(p)\<close> on the producer.\<close>

definition producer_next :: "'v producer \<Rightarrow> (exc + 'v Record) \<times> 'v producer" where
  "producer_next p =
     (case remaining p of
        [] \<Rightarrow> (Inl (Exc StopIteration []), p\<lparr>pulls := Suc (pulls p)\<rparr>)
      | r # rs \<Rightarrow> (Inr r, p\<lparr>remaining := rs, pulls := Suc (pulls p)\<rparr>))"

section \<open>List slicing\<close>

datatype slice = Slice (start: "int option") (stop: "int option") (step: "int option")

text \<open>
  \<^verbatim>\<open>slice.indices(len)\<close>: the step defaults to 1 and must not be 0; a negative bound counts
  from the end; both bounds are clipped to the list.
\<close>

definition slice_indices :: "slice \<Rightarrow> nat \<Rightarrow> exc + int \<times> int \<times> int" where
  "slice_indices s len =
     (let st = (case step s of None \<Rightarrow> 1 | Some k \<Rightarrow> k) in
      if st = 0 then Inl (Exc ValueError ''slice step cannot be zero'')
      else
        let n = int len;
            lower = (if st < 0 then - 1 else 0);
            upper = (if st < 0 then n - 1 else n);
            lo = (case start s of
                    None \<Rightarrow> (if st < 0 then upper else lower)
                  | Some a \<Rightarrow> (if a < 0 then max (a + n) lower else min a upper));
            hi = (case stop s of
                    None \<Rightarrow> (if st < 0 then lower else upper)
                  | Some b \<Rightarrow> (if b < 0 then max (b + n) lower else min b upper))
        in Inr (lo, hi, st))"

text \<open>\<^verbatim>\<open>len(range(lo, hi, st))\<close> for a step that is not 0.\<close>

definition range_len :: "int \<Rightarrow> int \<Rightarrow> int \<Rightarrow> nat" where
  "range_len lo hi st =
     (if 0 < st \<and> lo < hi then nat ((hi - lo - 1) div st + 1)
      else if st < 0 \<and> hi < lo then nat ((lo - hi - 1) div (- st) + 1)
      else 0)"

text \<open>\<^verbatim>\<open>xs[s]\<close> for a slice \<open>s\<close>: a new list.\<close>

definition list_getslice :: "'a list \<Rightarrow> slice \<Rightarrow> exc + 'a list" where
  "list_getslice xs s =
     (case slice_indices s (length xs) of
        Inl e \<Rightarrow> Inl e
      | Inr (lo, hi, st) \<Rightarrow>
          Inr (map (\<lambda>j. xs ! nat (lo + int j * st)) [0..<range_len lo hi st]))"

section \<open>Collection\<close>

text \<open>The three slots of \<^verbatim>\<open>class Collection\<close>: \<^verbatim>\<open>_rows\<close>, \<^verbatim>\<open>_all_rows\<close> and \<^verbatim>\<open>pending\<close>.\<close>

record 'v Collection =
  rows :: "'v producer"
  all_rows :: "'v Record list"
  pending :: bool

datatype collection_key = IntKey int | SliceKey slice

text \<open>What \<^verbatim>\<open>Collection.__getitem__\<close> returns: a Record for an int, a new Collection for a slice.\<close>

datatype 'v item = Row "'v Record" | Sliced "'v Collection"

definition Collection_init :: "'v producer \<Rightarrow> 'v Collection" where
  "Collection_init p = \<lparr>rows = p, all_rows = [], pending = True\<rparr>"

definition Collection_len :: "'v Collection \<Rightarrow> nat" where
  "Collection_len self = length (all_rows self)"

text \<open>
  \<^verbatim>\<open>Collection.__next__\<close>: the producer is asked whatever \<^verbatim>\<open>pending\<close> says; a record is
  appended to the cache, \<^verbatim>\<open>StopIteration\<close> clears \<^verbatim>\<open>pending\<close> and is raised anew.
\<close>

definition Collection_next :: "'v Collection \<Rightarrow> (exc + 'v Record) \<times> 'v Collection" where
  "Collection_next self =
     (case producer_next (rows self) of
        (Inr record, p) \<Rightarrow>
          (Inr record, self\<lparr>rows := p, all_rows := all_rows self @ [record]\<rparr>)
      | (Inl e, p) \<Rightarrow>
          if exc_class e = StopIteration
          then (Inl (Exc StopIteration ''Collection contains no more rows.''),
                self\<lparr>rows := p, pending := False\<rparr>)
          else (Inl e, self\<lparr>rows := p\<rparr>))"

text \<open>
  The loop condition of \<^verbatim>\<open>__getitem__\<close>, \<^verbatim>\<open>len(self) < key.stop or key.stop is None\<close>. The
  left operand is evaluated first, and comparing an int with \<^verbatim>\<open>None\<close> raises \<^verbatim>\<open>TypeError\<close>.
\<close>

definition loop_condition :: "nat \<Rightarrow> int option \<Rightarrow> exc + bool" where
  "loop_condition len key_stop =
     (case key_stop of
        None \<Rightarrow>
          Inl (Exc TypeError (quoted ''<'' @ '' not supported between instances of ''
                 @ quoted ''int'' @ '' and '' @ quoted ''NoneType''))
      | Some n \<Rightarrow> Inr (int len < n \<or> key_stop = None))"

text \<open>
  The \<^verbatim>\<open>while\<close> loop of \<^verbatim>\<open>__getitem__\<close>: \<^verbatim>\<open>StopIteration\<close> breaks it, any other exception
  leaves it.
\<close>

function getitem_loop :: "'v Collection \<Rightarrow> int option \<Rightarrow> exc option \<times> 'v Collection" where
  "getitem_loop self key_stop =
     (case loop_condition (Collection_len self) key_stop of
        Inl e \<Rightarrow> (Some e, self)
      | Inr go \<Rightarrow>
          if go then
            (case Collection_next self of
               (Inr _, self') \<Rightarrow> getitem_loop self' key_stop
             | (Inl e, self') \<Rightarrow>
                 if exc_class e = StopIteration then (None, self') else (Some e, self'))
          else (None, self))"
  by pat_completeness auto
termination
  apply (relation "measure (\<lambda>(self, key_stop). length (remaining (rows self)))")
   apply simp
  apply (auto simp: Collection_next_def producer_next_def split: list.splits if_splits)
  done

declare getitem_loop.simps [simp del]

text \<open>
  \<^verbatim>\<open>Collection.__getitem__\<close>. An int \<open>k\<close> becomes \<^verbatim>\<open>slice(k, k + 1)\<close>; the loop pulls until
  the cache reaches the stop; the cache is sliced; an int yields \<^verbatim>\<open>rows[0]\<close>, a slice a
  new Collection over \<^verbatim>\<open>iter(rows)\<close>.
\<close>

definition Collection_getitem ::
  "'v Collection \<Rightarrow> collection_key \<Rightarrow> (exc + 'v item) \<times> 'v Collection" where
  "Collection_getitem self key =
     (let is_int = (case key of IntKey _ \<Rightarrow> True | SliceKey _ \<Rightarrow> False);
          key' = (case key of
                    IntKey k \<Rightarrow> Slice (Some k) (Some (k + 1)) None
                  | SliceKey s \<Rightarrow> s)
      in case getitem_loop self (stop key') of
           (Some e, self') \<Rightarrow> (Inl e, self')
         | (None, self') \<Rightarrow>
             (case list_getslice (all_rows self') key' of
                Inl e \<Rightarrow> (Inl e, self')
              | Inr rows' \<Rightarrow>
                  if is_int then
                    (case list_getitem rows' 0 of
                       Inl e \<Rightarrow> (Inl e, self')
                     | Inr r \<Rightarrow> (Inr (Row r), self'))
                  else (Inr (Sliced (Collection_init (py_iter rows'))), self')))"

text \<open>
  \<^verbatim>\<open>self[i]\<close> for an int \<open>i\<close>, as \<^verbatim>\<open>__iter__\<close>, \<^verbatim>\<open>first\<close> and \<^verbatim>\<open>one\<close> call it: the result is
  a Record. (For an int key \<^verbatim>\<open>__getitem__\<close> never returns a Collection, so the second
  branch is never taken.)
\<close>

definition getitem_row :: "'v Collection \<Rightarrow> int \<Rightarrow> (exc + 'v Record) \<times> 'v Collection" where
  "getitem_row self i =
     (case Collection_getitem self (IntKey i) of
        (Inr (Row r), self') \<Rightarrow> (Inr r, self')
      | (Inr (Sliced c), self') \<Rightarrow> (Inl (Exc TypeError ''not a Record''), self')
      | (Inl e, self') \<Rightarrow> (Inl e, self'))"

text \<open>
  \<^verbatim>\<open>Collection.__iter__\<close> is a generator. A generator object holds the local \<^verbatim>\<open>i\<close> and
  whether its body has returned; creating it runs nothing.
\<close>

record gen =
  gen_i :: nat
  gen_done :: bool

definition Collection_iter :: gen where
  "Collection_iter = \<lparr>gen_i = 0, gen_done = False\<rparr>"

text \<open>
  \<^verbatim>\<open>next(g)\<close> on such a generator runs the body up to the next \<^verbatim>\<open>yield\<close> (the increment
  of \<^verbatim>\<open>i\<close> that follows the \<^verbatim>\<open>yield\<close> is done here with it). The body's \<^verbatim>\<open>return\<close> ends
  the generator with \<^verbatim>\<open>StopIteration\<close>, as does every later call.
\<close>

definition gen_next ::
  "'v Collection \<Rightarrow> gen \<Rightarrow> (exc + 'v Record) \<times> 'v Collection \<times> gen" where
  "gen_next self g =
     (if gen_done g then (Inl (Exc StopIteration []), self, g)
      else if gen_i g < Collection_len self then
        (case getitem_row self (int (gen_i g)) of
           (Inr r, self') \<Rightarrow> (Inr r, self', g\<lparr>gen_i := Suc (gen_i g)\<rparr>)
         | (Inl e, self') \<Rightarrow> (Inl e, self', g\<lparr>gen_done := True\<rparr>))
      else
        (case Collection_next self of
           (Inr r, self') \<Rightarrow> (Inr r, self', g\<lparr>gen_i := Suc (gen_i g)\<rparr>)
         | (Inl e, self') \<Rightarrow>
             if exc_class e = StopIteration
             then (Inl (Exc StopIteration []), self', g\<lparr>gen_done := True\<rparr>)
             else (Inl e, self', g\<lparr>gen_done := True\<rparr>)))"

lemma getitem_loop_filled:
  "n \<le> int (length (all_rows self)) \<Longrightarrow> getitem_loop self (Some n) = (None, self)"
  by (subst getitem_loop.simps) (simp add: loop_condition_def Collection_len_def)

lemma getitem_row_cached_state:
  assumes "i < length (all_rows self)"
  shows "snd (getitem_row self (int i)) = self"
proof -
  from assms have "getitem_loop self (Some (int i + 1)) = (None, self)"
    by (intro getitem_loop_filled) simp
  then show ?thesis
    by (simp add: getitem_row_def Collection_getitem_def split: sum.splits item.splits)
qed

lemma Collection_next_yield:
  "Collection_next self = (Inr r, self') \<Longrightarrow>
     remaining (rows self) = r # remaining (rows self')
   \<and> all_rows self' = all_rows self @ [r]
   \<and> pending self' = pending self
   \<and> pulls (rows self') = Suc (pulls (rows self))"
  by (auto simp: Collection_next_def producer_next_def split: list.splits if_splits)

lemma gen_next_yield_measure:
  assumes "gen_next self g = (Inr r, self', g')"
  shows "2 * length (remaining (rows self')) + (length (all_rows self') - gen_i g')
       < 2 * length (remaining (rows self)) + (length (all_rows self) - gen_i g)"
proof -
  from assms have nd: "\<not> gen_done g" by (auto simp: gen_next_def)
  show ?thesis
  proof (cases "gen_i g < length (all_rows self)")
    case True
    from getitem_row_cached_state [OF True]
    have "snd (getitem_row self (int (gen_i g))) = self" .
    with assms nd True have "self' = self" "gen_i g' = Suc (gen_i g)"
      by (auto simp: gen_next_def Collection_len_def split: prod.splits sum.splits)
    with True show ?thesis by simp
  next
    case False
    with assms nd have "Collection_next self = (Inr r, self')" "gen_i g' = Suc (gen_i g)"
      by (auto simp: gen_next_def Collection_len_def split: prod.splits sum.splits if_splits)
    with Collection_next_yield [of self r self'] False show ?thesis by simp
  qed
qed

text \<open>\<^verbatim>\<open>list(self)\<close>: a fresh generator is run until it ends.\<close>

function list_loop ::
  "'v Collection \<Rightarrow> gen \<Rightarrow> 'v Record list \<Rightarrow> (exc + 'v Record list) \<times> 'v Collection" where
  "list_loop self g acc =
     (case gen_next self g of
        (Inr r, self', g') \<Rightarrow> list_loop self' g' (acc @ [r])
      | (Inl e, self', g') \<Rightarrow>
          if exc_class e = StopIteration then (Inr acc, self') else (Inl e, self'))"
  by pat_completeness auto
termination
  apply (relation "measure (\<lambda>(self, g, acc).
            2 * length (remaining (rows self)) + (length (all_rows self) - gen_i g))")
   apply simp
  apply (auto intro: gen_next_yield_measure [OF sym])
  done

declare list_loop.simps [simp del]

text \<open>\<^verbatim>\<open>Collection.all\<close>.\<close>

definition Collection_all ::
  "'v Collection \<Rightarrow> bool \<Rightarrow> bool \<Rightarrow> (exc + 'v pyobj list) \<times> 'v Collection" where
  "Collection_all self as_dict ordered =
     (case list_loop self Collection_iter [] of
        (Inl e, self') \<Rightarrow> (Inl e, self')
      | (Inr rows', self') \<Rightarrow>
          if as_dict then (Inr (map (\<lambda>r. Record_dict r ordered) rows'), self')
          else (Inr (map PyRecord rows'), self'))"

text \<open>\<^verbatim>\<open>_is_exception\<close>: an instance of \<^verbatim>\<open>Exception\<close>, or a class that is a subclass of it.\<close>

definition isinstance_Exception :: "'v pyobj \<Rightarrow> bool" where
  "isinstance_Exception obj = (case obj of PyExcInstance _ \<Rightarrow> True | _ \<Rightarrow> False)"

definition isclass :: "'v pyobj \<Rightarrow> bool" where
  "isclass obj = (case obj of PyClass _ \<Rightarrow> True | _ \<Rightarrow> False)"

definition issubclass_Exception :: "'v pyobj \<Rightarrow> bool" where
  "issubclass_Exception obj = (case obj of PyClass (ExceptionClass _) \<Rightarrow> True | _ \<Rightarrow> False)"

definition is_exception :: "'v pyobj \<Rightarrow> bool" where
  "is_exception obj =
     (if isinstance_Exception obj then True
      else if isclass obj \<and> issubclass_Exception obj then True
      else False)"

text \<open>
  \<^verbatim>\<open>raise obj\<close>, as the exception that ends up being raised: an instance is raised as it
  is; a class is first called without arguments, and either the instance it constructs
  is raised or, when the call fails, the exception of the call; anything else is a
  \<^verbatim>\<open>TypeError\<close>.
\<close>

definition raise :: "'v pyobj \<Rightarrow> exc" where
  "raise obj =
     (case obj of
        PyExcInstance e \<Rightarrow> e
      | PyClass (ExceptionClass cl) \<Rightarrow>
          (case instantiate cl of Inr inst \<Rightarrow> inst | Inl err \<Rightarrow> err)
      | _ \<Rightarrow> Exc TypeError ''exceptions must derive from BaseException'')"

text \<open>\<^verbatim>\<open>Collection.first\<close>.\<close>

definition Collection_first ::
  "'v Collection \<Rightarrow> 'v pyobj \<Rightarrow> bool \<Rightarrow> bool \<Rightarrow> (exc + 'v pyobj) \<times> 'v Collection" where
  "Collection_first self dflt as_dict ordered =
     (case getitem_row self 0 of
        (Inl e, self') \<Rightarrow>
          if exc_class e = IndexError then
            if is_exception dflt then (Inl (raise dflt), self') else (Inr dflt, self')
          else (Inl e, self')
      | (Inr record, self') \<Rightarrow>
          if as_dict then (Inr (Record_dict record ordered), self')
          else (Inr (PyRecord record), self'))"

text \<open>\<^verbatim>\<open>Collection.one\<close>.\<close>

definition Collection_one ::
  "'v Collection \<Rightarrow> 'v pyobj \<Rightarrow> bool \<Rightarrow> bool \<Rightarrow> (exc + 'v pyobj) \<times> 'v Collection" where
  "Collection_one self dflt as_dict ordered =
     (case getitem_row self 1 of
        (Inl e, self') \<Rightarrow>
          if exc_class e = IndexError then Collection_first self' dflt as_dict ordered
          else (Inl e, self')
      | (Inr _, self') \<Rightarrow>
          (Inl (Exc ValueError
                  ''Collection contains more than one row, exactly one row expected.''),
           self'))"

text \<open>
  \<^verbatim>\<open>Collection.scalar\<close>: \<^verbatim>\<open>self.one()\<close> is called with its own defaults, so it returns
  \<^verbatim>\<open>None\<close> (false) or a Record (true, the class defines neither \<^verbatim>\<open>__bool__\<close> nor
  \<^verbatim>\<open>__len__\<close>); the default is returned, never raised.
\<close>

definition Collection_scalar ::
  "'v Collection \<Rightarrow> 'v pyobj \<Rightarrow> (exc + 'v pyobj) \<times> 'v Collection" where
  "Collection_scalar self dflt =
     (case Collection_one self PyNone False False of
        (Inl e, self') \<Rightarrow> (Inl e, self')
      | (Inr PyNone, self') \<Rightarrow> (Inr dflt, self')
      | (Inr (PyRecord record), self') \<Rightarrow>
          (case Record_getitem record (Index 0) of
             Inl e \<Rightarrow> (Inl e, self')
           | Inr v \<Rightarrow> (Inr (PyValue v), self'))
      | (Inr _, self') \<Rightarrow> (Inl (Exc TypeError ''object is not subscriptable''), self'))"

section \<open>Interleaved use of one Collection\<close>

text \<open>
  A Collection in use: the Collection, the generators that were made from it by
  \<^verbatim>\<open>iter\<close>, and for each of them the records it has yielded so far. An operation is a
  call on the Collection or \<^verbatim>\<open>next\<close> on one of the generators.
\<close>

datatype 'v op =
    OpNext
  | OpGetitem collection_key
  | OpFirst "'v pyobj" bool bool
  | OpOne "'v pyobj" bool bool
  | OpScalar "'v pyobj"
  | OpAll bool bool
  | OpLen
  | OpGenNext nat

record 'v session =
  coll :: "'v Collection"
  gens :: "gen list"
  yielded :: "'v Record list list"

definition session_init :: "'v Record list \<Rightarrow> nat \<Rightarrow> 'v session" where
  "session_init xs m =
     \<lparr>coll = Collection_init (py_iter xs),
      gens = replicate m Collection_iter,
      yielded = replicate m []\<rparr>"

fun exec :: "'v session \<Rightarrow> 'v op \<Rightarrow> 'v session" where
  "exec s OpNext = s\<lparr>coll := snd (Collection_next (coll s))\<rparr>"
| "exec s (OpGetitem key) = s\<lparr>coll := snd (Collection_getitem (coll s) key)\<rparr>"
| "exec s (OpFirst dflt as_dict ordered) =
     s\<lparr>coll := snd (Collection_first (coll s) dflt as_dict ordered)\<rparr>"
| "exec s (OpOne dflt as_dict ordered) =
     s\<lparr>coll := snd (Collection_one (coll s) dflt as_dict ordered)\<rparr>"
| "exec s (OpScalar dflt) = s\<lparr>coll := snd (Collection_scalar (coll s) dflt)\<rparr>"
| "exec s (OpAll as_dict ordered) = s\<lparr>coll := snd (Collection_all (coll s) as_dict ordered)\<rparr>"
| "exec s OpLen = s"
| "exec s (OpGenNext k) =
     (if k < length (gens s) then
        (case gen_next (coll s) (gens s ! k) of
           (Inr r, self', g') \<Rightarrow>
             s\<lparr>coll := self', gens := (gens s)[k := g'],
               yielded := (yielded s)[k := yielded s ! k @ [r]]\<rparr>
         | (Inl e, self', g') \<Rightarrow> s\<lparr>coll := self', gens := (gens s)[k := g']\<rparr>)
      else s)"

definition run :: "'v session \<Rightarrow> 'v op list \<Rightarrow> 'v session" where
  "run s ops = foldl exec s ops"

section \<open>Invariants\<close>

text \<open>One more call of \<^verbatim>\<open>__next__\<close>, and any number of them.\<close>

definition advance :: "'v Collection \<Rightarrow> 'v Collection" where
  "advance c = snd (Collection_next c)"

definition advances :: "'v Collection \<Rightarrow> 'v Collection \<Rightarrow> bool" where
  "advances c c' = (\<exists>n. c' = (advance ^^ n) c)"

text \<open>
  The Collection is consistent with the records \<open>xs\<close> its producer was made from: the
  cache followed by what the producer still holds is \<open>xs\<close>; while \<^verbatim>\<open>pending\<close> the
  producer was asked once per cached record; afterwards it is empty and was asked more
  often than that.
\<close>

definition consistent :: "'v Record list \<Rightarrow> 'v Collection \<Rightarrow> bool" where
  "consistent xs c =
     (all_rows c @ remaining (rows c) = xs
      \<and> (if pending c then pulls (rows c) = length (all_rows c)
         else remaining (rows c) = [] \<and> length (all_rows c) < pulls (rows c)))"

text \<open>
  A generator that was stepped \<open>n\<close> times, and the records \<open>ys\<close> it has yielded.
\<close>

definition gen_ok :: "'v Record list \<Rightarrow> 'v Collection \<Rightarrow> nat \<Rightarrow> gen \<Rightarrow> 'v Record list \<Rightarrow> bool" where
  "gen_ok xs c n g ys =
     (gen_i g = min n (length xs)
      \<and> gen_done g = (length xs < n)
      \<and> gen_i g \<le> length (all_rows c)
      \<and> (if gen_done g then remaining (rows c) = [] else True)
      \<and> ys = take n xs)"

definition session_inv :: "'v Record list \<Rightarrow> nat \<Rightarrow> 'v op list \<Rightarrow> 'v session \<Rightarrow> bool" where
  "session_inv xs m ops s =
     (length (gens s) = m \<and> length (yielded s) = m \<and> consistent xs (coll s)
      \<and> (\<forall>k<m. gen_ok xs (coll s) (count_list ops (OpGenNext k)) (gens s ! k) (yielded s ! k)))"

text \<open>The records of the test suite: \<^verbatim>\<open>Record(['id'], [n])\<close>.\<close>

definition test_record :: "int \<Rightarrow> int Record" where
  "test_record n = \<lparr>Record_keys = [''id''], Record_values = [n]\<rparr>"

section \<open>Record: lookup\<close>

lemma list_index_unique:
  "count_list xs x = 1 \<Longrightarrow>
     \<exists>n<length xs. list_index xs x = Inr n \<and> xs ! n = x \<and> (\<forall>m<length xs. xs ! m = x \<longrightarrow> m = n)"
proof (induction xs)
  case Nil
  then show ?case by simp
next
  case (Cons y ys)
  show ?case
  proof (cases "y = x")
    case True
    with Cons.prems have "count_list ys x = 0" by simp
    then have notin: "x \<notin> set ys" by (simp add: count_list_0_iff)
    have "\<forall>m<length (y # ys). (y # ys) ! m = x \<longrightarrow> m = 0"
    proof (intro allI impI)
      fix m assume "m < length (y # ys)" "(y # ys) ! m = x"
      with notin show "m = 0" by (cases m) auto
    qed
    moreover have "0 < length (y # ys)" by simp
    moreover have "list_index (y # ys) x = Inr 0" using True by simp
    moreover have "(y # ys) ! 0 = x" using True by simp
    ultimately show ?thesis by blast
  next
    case False
    with Cons.prems have "count_list ys x = 1" by simp
    from Cons.IH [OF this] obtain n where n: "n < length ys" "list_index ys x = Inr n"
      "ys ! n = x" "\<forall>m<length ys. ys ! m = x \<longrightarrow> m = n" by blast
    have "\<forall>m<length (y # ys). (y # ys) ! m = x \<longrightarrow> m = Suc n"
    proof (intro allI impI)
      fix m assume "m < length (y # ys)" "(y # ys) ! m = x"
      with False n(4) show "m = Suc n" by (cases m) auto
    qed
    moreover have "Suc n < length (y # ys)" using n(1) by simp
    moreover have "list_index (y # ys) x = Inr (Suc n)" using False n(2) by simp
    moreover have "(y # ys) ! Suc n = x" using n(3) by simp
    ultimately show ?thesis by blast
  qed
qed

lemma Record_getitem_Index:
  "Record_getitem r (Index i) = list_getitem (Record_values r) i"
  by (simp add: Record_getitem_def)

lemma Record_getitem_multiple:
  assumes "count_list (Record_keys r) k > 1"
  shows "Record_getitem r (Name k) =
           Inl (Exc KeyError (''Record contains multiple '' @ quoted k @ '' fields.''))"
proof -
  from assms have "count_list (Record_keys r) k \<noteq> 0" by simp
  then have "k \<in> set (Record_keys r)" by (simp add: count_list_0_iff)
  with assms show ?thesis by (simp add: Record_getitem_def)
qed

lemma Record_getitem_absent:
  "k \<notin> set (Record_keys r) \<Longrightarrow>
     Record_getitem r (Name k) =
       Inl (Exc KeyError (''Record contains no '' @ quoted k @ '' field.''))"
  by (simp add: Record_getitem_def)

lemma Record_getitem_unique:
  assumes wf: "length (Record_keys r) = length (Record_values r)"
    and c: "count_list (Record_keys r) k = 1"
  shows "\<exists>n < length (Record_keys r).
                Record_keys r ! n = k
              \<and> (\<forall>m < length (Record_keys r). Record_keys r ! m = k \<longrightarrow> m = n)
              \<and> Record_getitem r (Name k) = Inr (Record_values r ! n)"
proof -
  from list_index_unique [OF c] obtain n where n: "n < length (Record_keys r)"
    "list_index (Record_keys r) k = Inr n" "Record_keys r ! n = k"
    "\<forall>m<length (Record_keys r). Record_keys r ! m = k \<longrightarrow> m = n" by blast
  from c have "count_list (Record_keys r) k \<noteq> 0" by simp
  then have mem: "k \<in> set (Record_keys r)" by (simp add: count_list_0_iff)
  have "list_getitem (Record_values r) (int n) = Inr (Record_values r ! n)"
    using n(1) wf by (simp add: list_getitem_def)
  with mem c n(2) have "Record_getitem r (Name k) = Inr (Record_values r ! n)"
    by (simp add: Record_getitem_def)
  with n show ?thesis by blast
qed

text \<open>
  C9. For every Record (one that \<^verbatim>\<open>Record.__init__\<close> accepts, so with as many keys as
  values), lookup with an integer index returns \<^verbatim>\<open>values[index]\<close> (Python list indexing: an
  index from \<open>0\<close> up to the length reads that position, an index from minus the length
  up to \<open>-1\<close> counts from the end) and fails with \<^verbatim>\<open>IndexError\<close> for every other
  index. Lookup with a name fails with the "multiple fields" \<^verbatim>\<open>KeyError\<close> when the name
  occurs more than once in the keys, with the "no field" \<^verbatim>\<open>KeyError\<close> when it is absent,
  and otherwise returns the value at the one position where the name stands.
\<close>

theorem Record_getitem_lookup:
  fixes r :: "'v Record"
  assumes init: "Record_init ks vs = Inr r"
  shows "(0 \<le> i \<and> i < int (length (Record_values r)) \<longrightarrow>
            Record_getitem r (Index i) = Inr (Record_values r ! nat i))
       \<and> (- int (length (Record_values r)) \<le> i \<and> i < 0 \<longrightarrow>
            Record_getitem r (Index i) =
              Inr (Record_values r ! nat (i + int (length (Record_values r)))))
       \<and> (i < - int (length (Record_values r)) \<or> int (length (Record_values r)) \<le> i \<longrightarrow>
            Record_getitem r (Index i) = Inl (Exc IndexError ''list index out of range''))
       \<and> (count_list (Record_keys r) k > 1 \<longrightarrow>
            Record_getitem r (Name k) =
              Inl (Exc KeyError (''Record contains multiple '' @ quoted k @ '' fields.'')))
       \<and> (k \<notin> set (Record_keys r) \<longrightarrow>
            Record_getitem r (Name k) =
              Inl (Exc KeyError (''Record contains no '' @ quoted k @ '' field.'')))
       \<and> (count_list (Record_keys r) k = 1 \<longrightarrow>
            (\<exists>n < length (Record_keys r).
                Record_keys r ! n = k
              \<and> (\<forall>m < length (Record_keys r). Record_keys r ! m = k \<longrightarrow> m = n)
              \<and> Record_getitem r (Name k) = Inr (Record_values r ! n)))"
proof (intro conjI impI)
  from init have wf: "length (Record_keys r) = length (Record_values r)"
    by (auto simp: Record_init_def split: if_splits)
  show "Record_getitem r (Index i) = Inr (Record_values r ! nat i)"
    if "0 \<le> i \<and> i < int (length (Record_values r))"
    using that by (simp add: Record_getitem_Index list_getitem_def)
  show "Record_getitem r (Index i) =
          Inr (Record_values r ! nat (i + int (length (Record_values r))))"
    if "- int (length (Record_values r)) \<le> i \<and> i < 0"
    using that by (simp add: Record_getitem_Index list_getitem_def)
  show "Record_getitem r (Index i) = Inl (Exc IndexError ''list index out of range'')"
    if "i < - int (length (Record_values r)) \<or> int (length (Record_values r)) \<le> i"
    using that by (simp add: Record_getitem_Index list_getitem_def)
  show "Record_getitem r (Name k) =
          Inl (Exc KeyError (''Record contains multiple '' @ quoted k @ '' fields.''))"
    if "count_list (Record_keys r) k > 1"
    using that by (rule Record_getitem_multiple)
  show "Record_getitem r (Name k) =
          Inl (Exc KeyError (''Record contains no '' @ quoted k @ '' field.''))"
    if "k \<notin> set (Record_keys r)"
    using that by (rule Record_getitem_absent)
  show "\<exists>n < length (Record_keys r).
                Record_keys r ! n = k
              \<and> (\<forall>m < length (Record_keys r). Record_keys r ! m = k \<longrightarrow> m = n)
              \<and> Record_getitem r (Name k) = Inr (Record_values r ! n)"
    if "count_list (Record_keys r) k = 1"
    using wf that by (rule Record_getitem_unique)
qed

text \<open>The record of the duplicate-column example: keys id, email, email.\<close>

theorem Record_getitem_lookup_witness:
  "Record_init [''id'', ''email'', ''email''] [''1'', ''a'', ''b'']
     = Inr \<lparr>Record_keys = [''id'', ''email'', ''email''],
            Record_values = [''1'', ''a'', ''b'']\<rparr>
   \<and> Record_getitem \<lparr>Record_keys = [''id'', ''email'', ''email''],
                      Record_values = [''1'', ''a'', ''b'']\<rparr> (Index 2) = Inr ''b''
   \<and> Record_getitem \<lparr>Record_keys = [''id'', ''email'', ''email''],
                      Record_values = [''1'', ''a'', ''b'']\<rparr> (Index 3)
       = Inl (Exc IndexError ''list index out of range'')
   \<and> Record_getitem \<lparr>Record_keys = [''id'', ''email'', ''email''],
                      Record_values = [''1'', ''a'', ''b'']\<rparr> (Name ''email'')
       = Inl (Exc KeyError (''Record contains multiple '' @ quoted ''email'' @ '' fields.''))
   \<and> Record_getitem \<lparr>Record_keys = [''id'', ''email'', ''email''],
                      Record_values = [''1'', ''a'', ''b'']\<rparr> (Name ''name'')
       = Inl (Exc KeyError (''Record contains no '' @ quoted ''name'' @ '' field.''))
   \<and> Record_getitem \<lparr>Record_keys = [''id'', ''email'', ''email''],
                      Record_values = [''1'', ''a'', ''b'']\<rparr> (Name ''id'') = Inr ''1''"
proof -
  let ?r = "\<lparr>Record_keys = [''id'', ''email'', ''email''],
             Record_values = [''1'', ''a'', ''b'']\<rparr>"
  have init: "Record_init [''id'', ''email'', ''email''] [''1'', ''a'', ''b''] = Inr ?r"
    by (simp add: Record_init_def)
  from Record_getitem_lookup [OF init, of 2 "''email''"]
  have a: "Record_getitem ?r (Index 2) = Inr ''b''"
    and b: "Record_getitem ?r (Name ''email'')
       = Inl (Exc KeyError (''Record contains multiple '' @ quoted ''email'' @ '' fields.''))"
    by simp_all
  from Record_getitem_lookup [OF init, of 3 "''name''"]
  have c: "Record_getitem ?r (Index 3) = Inl (Exc IndexError ''list index out of range'')"
    and d: "Record_getitem ?r (Name ''name'')
       = Inl (Exc KeyError (''Record contains no '' @ quoted ''name'' @ '' field.''))"
    by simp_all
  have one: "count_list (Record_keys ?r) ''id'' = 1" by simp
  with Record_getitem_lookup [OF init, of 0 "''id''"]
  obtain n where n: "n < length (Record_keys ?r)" "Record_keys ?r ! n = ''id''"
    "Record_getitem ?r (Name ''id'') = Inr (Record_values ?r ! n)"
    by blast
  from n(1,2) have "n = 0" by (cases n) (auto simp: nth_Cons split: nat.splits)
  with n(3) have e: "Record_getitem ?r (Name ''id'') = Inr ''1''" by simp
  from init a b c d e show ?thesis by blast
qed

text \<open>
  C10. For a name that occurs more than once in the keys, \<^verbatim>\<open>get\<close> returns the default:
  the \<^verbatim>\<open>KeyError\<close> that the lookup raises for the duplicate is caught and replaced by
  the default, exactly as the \<^verbatim>\<open>KeyError\<close> of an absent name is.
\<close>

theorem Record_get_duplicate_default:
  "(count_list (Record_keys r) k > 1 \<longrightarrow>
       (\<exists>e. Record_getitem r (Name k) = Inl e \<and> exc_class e = KeyError)
     \<and> Record_get r (Name k) d = Inr d)
 \<and> (k \<notin> set (Record_keys r) \<longrightarrow>
       (\<exists>e. Record_getitem r (Name k) = Inl e \<and> exc_class e = KeyError)
     \<and> Record_get r (Name k) d = Inr d)"
proof (intro conjI impI)
  assume "count_list (Record_keys r) k > 1"
  then have g: "Record_getitem r (Name k) =
      Inl (Exc KeyError (''Record contains multiple '' @ quoted k @ '' fields.''))"
    by (rule Record_getitem_multiple)
  then show "\<exists>e. Record_getitem r (Name k) = Inl e \<and> exc_class e = KeyError" by simp
  from g show "Record_get r (Name k) d = Inr d" by (simp add: Record_get_def)
next
  assume "k \<notin> set (Record_keys r)"
  then have g: "Record_getitem r (Name k) =
      Inl (Exc KeyError (''Record contains no '' @ quoted k @ '' field.''))"
    by (rule Record_getitem_absent)
  then show "\<exists>e. Record_getitem r (Name k) = Inl e \<and> exc_class e = KeyError" by simp
  from g show "Record_get r (Name k) d = Inr d" by (simp add: Record_get_def)
qed

theorem Record_get_duplicate_default_witness:
  "count_list (Record_keys \<lparr>Record_keys = [''id'', ''email'', ''email''],
                            Record_values = [''1'', ''a'', ''b'']\<rparr>) ''email'' > 1
   \<and> Record_get \<lparr>Record_keys = [''id'', ''email'', ''email''],
                  Record_values = [''1'', ''a'', ''b'']\<rparr> (Name ''email'') PyNone
       = Inr PyNone
   \<and> ''name'' \<notin> set (Record_keys \<lparr>Record_keys = [''id'', ''email'', ''email''],
                            Record_values = [''1'', ''a'', ''b'']\<rparr>)
   \<and> Record_get \<lparr>Record_keys = [''id'', ''email'', ''email''],
                  Record_values = [''1'', ''a'', ''b'']\<rparr> (Name ''name'') PyNone
       = Inr PyNone"
proof -
  let ?r = "\<lparr>Record_keys = [''id'', ''email'', ''email''],
             Record_values = [''1'', ''a'', ''b'']\<rparr>"
  have dup: "count_list (Record_keys ?r) ''email'' > 1" by simp
  have absent: "''name'' \<notin> set (Record_keys ?r)" by simp
  from Record_get_duplicate_default [of ?r "''email''" PyNone] dup
  have a: "Record_get ?r (Name ''email'') PyNone = Inr PyNone" by blast
  from Record_get_duplicate_default [of ?r "''name''" PyNone] absent
  have b: "Record_get ?r (Name ''name'') PyNone = Inr PyNone" by blast
  from dup a absent b show ?thesis by blast
qed

section \<open>Collection: what the operations compute\<close>

lemma Collection_next_exhausted:
  "remaining (rows c) = [] \<Longrightarrow>
     Collection_next c =
       (Inl (Exc StopIteration ''Collection contains no more rows.''),
        c\<lparr>rows := (rows c)\<lparr>pulls := Suc (pulls (rows c))\<rparr>, pending := False\<rparr>)"
  by (simp add: Collection_next_def producer_next_def)

lemma Collection_next_record:
  "remaining (rows c) = r # rs \<Longrightarrow>
     Collection_next c =
       (Inr r, c\<lparr>rows := (rows c)\<lparr>remaining := rs, pulls := Suc (pulls (rows c))\<rparr>,
                 all_rows := all_rows c @ [r]\<rparr>)"
  by (simp add: Collection_next_def producer_next_def)

lemma loop_condition_Some:
  "loop_condition len (Some n) = Inr (len < nat n)"
  by (auto simp: loop_condition_def)

lemma getitem_loop_None:
  "getitem_loop c None =
     (Some (Exc TypeError (quoted ''<'' @ '' not supported between instances of ''
                 @ quoted ''int'' @ '' and '' @ quoted ''NoneType'')), c)"
  by (subst getitem_loop.simps) (simp add: loop_condition_def)

lemma getitem_loop_Some:
  "remaining (rows c) = R \<Longrightarrow>
     fst (getitem_loop c (Some n)) = None
   \<and> all_rows (snd (getitem_loop c (Some n)))
       = all_rows c @ take (nat n - length (all_rows c)) R
   \<and> remaining (rows (snd (getitem_loop c (Some n))))
       = drop (nat n - length (all_rows c)) R
   \<and> pulls (rows (snd (getitem_loop c (Some n))))
       = pulls (rows c) + min (nat n - length (all_rows c)) (length R)
         + (if length (all_rows c) + length R < nat n then 1 else 0)
   \<and> pending (snd (getitem_loop c (Some n)))
       = (pending c \<and> \<not> length (all_rows c) + length R < nat n)"
proof (induction R arbitrary: c)
  case Nil
  show ?case
  proof (cases "length (all_rows c) < nat n")
    case True
    then have "getitem_loop c (Some n) =
        (None, c\<lparr>rows := (rows c)\<lparr>pulls := Suc (pulls (rows c))\<rparr>, pending := False\<rparr>)"
      using Nil
      by (subst getitem_loop.simps)
         (simp add: loop_condition_Some Collection_len_def Collection_next_exhausted)
    with True Nil show ?thesis by simp
  next
    case False
    then have "getitem_loop c (Some n) = (None, c)"
      by (subst getitem_loop.simps) (simp add: loop_condition_Some Collection_len_def)
    with False Nil show ?thesis by simp
  qed
next
  case (Cons r rs)
  show ?case
  proof (cases "length (all_rows c) < nat n")
    case True
    define c1 where "c1 = c\<lparr>rows := (rows c)\<lparr>remaining := rs, pulls := Suc (pulls (rows c))\<rparr>,
                 all_rows := all_rows c @ [r]\<rparr>"
    have step: "getitem_loop c (Some n) = getitem_loop c1 (Some n)"
      using True Cons.prems
      by (subst getitem_loop.simps)
         (simp add: loop_condition_Some Collection_len_def Collection_next_record c1_def)
    have r1: "remaining (rows c1) = rs" by (simp add: c1_def)
    obtain j where j: "nat n - length (all_rows c) = Suc j"
      using True by (metis Suc_diff_Suc)
    then have j1: "nat n - Suc (length (all_rows c)) = j" by simp
    have lt: "length (all_rows c) + length (r # rs) < nat n
                \<longleftrightarrow> Suc (length (all_rows c) + length rs) < nat n" by simp
    have a1: "all_rows c1 = all_rows c @ [r]" "pulls (rows c1) = Suc (pulls (rows c))"
      "pending c1 = pending c" by (simp_all add: c1_def)
    from Cons.IH [OF r1] show ?thesis
      unfolding step a1 lt by (simp add: j j1)
  next
    case False
    then have "getitem_loop c (Some n) = (None, c)"
      by (subst getitem_loop.simps) (simp add: loop_condition_Some Collection_len_def)
    with False Cons.prems show ?thesis by simp
  qed
qed

lemma range_len_unit:
  "range_len lo hi 1 = nat (hi - lo)"
  by (simp add: range_len_def)

lemma list_getslice_plain:
  assumes "0 \<le> a" "0 \<le> b"
  shows "list_getslice ys (Slice (Some a) (Some b) None)
           = Inr (take (nat b - nat a) (drop (nat a) ys))"
proof -
  define lo where "lo = min a (int (length ys))"
  define hi where "hi = min b (int (length ys))"
  have ind: "slice_indices (Slice (Some a) (Some b) None) (length ys) = Inr (lo, hi, 1)"
    using assms by (simp add: slice_indices_def lo_def hi_def Let_def)
  have len: "nat (hi - lo) = min (nat b - nat a) (length ys - nat a)"
    using assms by (auto simp: lo_def hi_def min_def)
  have "map (\<lambda>j. ys ! nat (lo + int j * 1)) [0..<nat (hi - lo)]
          = take (nat b - nat a) (drop (nat a) ys)"
  proof (rule nth_equalityI)
    show "length (map (\<lambda>j. ys ! nat (lo + int j * 1)) [0..<nat (hi - lo)])
            = length (take (nat b - nat a) (drop (nat a) ys))"
      using len by (simp add: min.commute)
  next
    fix j assume "j < length (map (\<lambda>j. ys ! nat (lo + int j * 1)) [0..<nat (hi - lo)])"
    then have j: "j < nat (hi - lo)" by simp
    with len have j1: "j < nat b - nat a" and j2: "j < length ys - nat a" by simp_all
    from j2 assms have "lo = a" by (auto simp: lo_def min_def)
    with assms have "nat (lo + int j * 1) = nat a + j" by simp
    with j j1 j2 show "map (\<lambda>j. ys ! nat (lo + int j * 1)) [0..<nat (hi - lo)] ! j
            = take (nat b - nat a) (drop (nat a) ys) ! j"
      by simp
  qed
  with ind show ?thesis by (simp add: list_getslice_def range_len_unit)
qed

lemma list_getslice_from_start:
  assumes "0 \<le> b"
  shows "list_getslice ys (Slice None (Some b) None) = Inr (take (nat b) ys)"
proof -
  have "slice_indices (Slice None (Some b) None) (length ys)
          = slice_indices (Slice (Some 0) (Some b) None) (length ys)"
    by (simp add: slice_indices_def Let_def)
  then have "list_getslice ys (Slice None (Some b) None)
          = list_getslice ys (Slice (Some 0) (Some b) None)"
    by (simp add: list_getslice_def)
  with list_getslice_plain [of 0 b ys] assms show ?thesis by simp
qed

text \<open>\<^verbatim>\<open>self[i]\<close> for \<open>i \<ge> 0\<close>: the \<open>i\<close>-th record of the whole sequence, or \<^verbatim>\<open>IndexError\<close>.\<close>

lemma Collection_getitem_nonneg:
  assumes "0 \<le> i"
  shows "Collection_getitem c (IntKey i) =
           (if nat i < length (all_rows c) + length (remaining (rows c))
            then Inr (Row ((all_rows c @ remaining (rows c)) ! nat i))
            else Inl (Exc IndexError ''list index out of range''),
            snd (getitem_loop c (Some (i + 1))))"
proof -
  define c' where "c' = snd (getitem_loop c (Some (i + 1)))"
  from getitem_loop_Some [OF refl, of c "i + 1"]
  have l: "getitem_loop c (Some (i + 1)) = (None, c')"
    and a: "all_rows c' = all_rows c @ take (nat (i + 1) - length (all_rows c)) (remaining (rows c))"
    by (simp_all add: c'_def prod_eq_iff)
  have sl: "list_getslice (all_rows c') (Slice (Some i) (Some (i + 1)) None)
              = Inr (take (nat (i + 1) - nat i) (drop (nat i) (all_rows c')))"
    using assms by (intro list_getslice_plain) simp_all
  have one: "nat (i + 1) - nat i = 1" using assms by simp
  show ?thesis
  proof (cases "nat i < length (all_rows c) + length (remaining (rows c))")
    case True
    have len: "nat i < length (all_rows c')"
      using True assms unfolding a by (auto simp: min_def nat_add_distrib)
    have "all_rows c' ! nat i = (all_rows c @ remaining (rows c)) ! nat i"
      using True assms unfolding a
      by (simp add: nth_append nat_add_distrib)
    moreover have "take 1 (drop (nat i) (all_rows c')) = [all_rows c' ! nat i]"
      using len by (simp add: take_Suc_conv_app_nth hd_drop_conv_nth take_Suc)
    ultimately show ?thesis
      using True l sl one
      by (simp add: Collection_getitem_def list_getitem_def c'_def [symmetric])
  next
    case False
    have "length (all_rows c') \<le> nat i"
      using False assms unfolding a by simp
    then have "take 1 (drop (nat i) (all_rows c')) = []" by simp
    with False l sl one show ?thesis
      by (simp add: Collection_getitem_def list_getitem_def c'_def [symmetric])
  qed
qed

lemma getitem_row_nonneg:
  assumes "0 \<le> i"
  shows "getitem_row c i =
           (if nat i < length (all_rows c) + length (remaining (rows c))
            then Inr ((all_rows c @ remaining (rows c)) ! nat i)
            else Inl (Exc IndexError ''list index out of range''),
            snd (getitem_loop c (Some (i + 1))))"
  by (simp add: getitem_row_def Collection_getitem_nonneg [OF assms])

lemma getitem_loop_empty:
  assumes "all_rows c = []" "remaining (rows c) = []"
  shows "all_rows (snd (getitem_loop c (Some n))) = []"
    and "remaining (rows (snd (getitem_loop c (Some n)))) = []"
  using getitem_loop_Some [OF assms(2), of n] assms(1) by simp_all

lemma Collection_first_empty:
  assumes "all_rows c = []" "remaining (rows c) = []"
  shows "fst (Collection_first c d as_dict ordered)
           = (if is_exception d then Inl (raise d) else Inr d)"
  using assms by (simp add: Collection_first_def getitem_row_nonneg)

lemma Collection_one_empty:
  assumes "all_rows c = []" "remaining (rows c) = []"
  shows "fst (Collection_one c d as_dict ordered)
           = (if is_exception d then Inl (raise d) else Inr d)"
proof -
  define c1 where "c1 = snd (getitem_loop c (Some 2))"
  have e: "all_rows c1 = []" "remaining (rows c1) = []"
    unfolding c1_def using getitem_loop_empty [OF assms] by simp_all
  have "getitem_row c 1 = (Inl (Exc IndexError ''list index out of range''), c1)"
    using assms by (simp add: getitem_row_nonneg c1_def)
  then have "Collection_one c d as_dict ordered = Collection_first c1 d as_dict ordered"
    by (simp add: Collection_one_def)
  with Collection_first_empty [OF e] show ?thesis by simp
qed

lemma Collection_scalar_empty:
  assumes "all_rows c = []" "remaining (rows c) = []"
  shows "fst (Collection_scalar c d) = Inr d"
proof -
  have "fst (Collection_one c PyNone False False) = Inr PyNone"
    using Collection_one_empty [OF assms, of PyNone False False]
    by (simp add: is_exception_def isinstance_Exception_def isclass_def)
  then obtain c2 where "Collection_one c PyNone False False = (Inr PyNone, c2)"
    by (cases "Collection_one c PyNone False False") simp
  then show ?thesis
    by (simp add: Collection_scalar_def)
qed

lemma Collection_first_record:
  assumes "1 \<le> length (all_rows c) + length (remaining (rows c))"
  shows "fst (Collection_first c d False ordered)
           = Inr (PyRecord ((all_rows c @ remaining (rows c)) ! 0))"
proof -
  from assms have "nat 0 < length (all_rows c) + length (remaining (rows c))" by auto
  then show ?thesis
    using getitem_row_nonneg [of 0 c] by (simp add: Collection_first_def)
qed

lemma Collection_first_dict:
  assumes "1 \<le> length (all_rows c) + length (remaining (rows c))"
  shows "fst (Collection_first c d True ordered)
           = Inr (Record_dict ((all_rows c @ remaining (rows c)) ! 0) ordered)"
proof -
  from assms have "nat 0 < length (all_rows c) + length (remaining (rows c))" by auto
  then show ?thesis
    using getitem_row_nonneg [of 0 c] by (simp add: Collection_first_def)
qed

section \<open>Every operation is a run of pulls\<close>

lemma advances_refl: "advances c c"
  unfolding advances_def by (rule exI [of _ 0]) simp

lemma advances_step: "advances c (advance c)"
  unfolding advances_def by (rule exI [of _ 1]) simp

lemma advances_trans: "advances a b \<Longrightarrow> advances b c \<Longrightarrow> advances a c"
  unfolding advances_def
proof (elim exE)
  fix n m assume "b = (advance ^^ n) a" "c = (advance ^^ m) b"
  then have "c = (advance ^^ (m + n)) a" by (simp add: funpow_add)
  then show "\<exists>k. c = (advance ^^ k) a" ..
qed

lemma advances_next: "advances c (snd (Collection_next c))"
  using advances_step [of c] by (simp add: advance_def)

lemma advances_getitem_loop: "advances c (snd (getitem_loop c k))"
proof (induction c k rule: getitem_loop.induct)
  case (1 self key_stop)
  show ?case
  proof (cases "loop_condition (Collection_len self) key_stop")
    case (Inl e)
    then show ?thesis by (subst getitem_loop.simps) (simp add: advances_refl)
  next
    case (Inr go)
    show ?thesis
    proof (cases go)
      case False
      with Inr show ?thesis by (subst getitem_loop.simps) (simp add: advances_refl)
    next
      case True
      obtain res self' where n: "Collection_next self = (res, self')"
        by (cases "Collection_next self")
      then have a: "advances self self'" using advances_next [of self] by simp
      show ?thesis
      proof (cases res)
        case (Inl e)
        with Inr True n a show ?thesis by (subst getitem_loop.simps) simp
      next
        case (Inr r)
        have "advances self' (snd (getitem_loop self' key_stop))"
          using "1.IH" [OF \<open>loop_condition (Collection_len self) key_stop = Inr go\<close> True
              n [symmetric] Inr] .
        with a have "advances self (snd (getitem_loop self' key_stop))"
          by (rule advances_trans)
        moreover have "getitem_loop self key_stop = getitem_loop self' key_stop"
          using \<open>loop_condition (Collection_len self) key_stop = Inr go\<close> True n Inr
          by (subst getitem_loop.simps) simp
        ultimately show ?thesis by simp
      qed
    qed
  qed
qed

lemma advances_getitem: "advances c (snd (Collection_getitem c key))"
proof -
  define key' where "key' = (case key of
                    IntKey k \<Rightarrow> Slice (Some k) (Some (k + 1)) None
                  | SliceKey s \<Rightarrow> s)"
  obtain err c1 where l: "getitem_loop c (stop key') = (err, c1)"
    by (cases "getitem_loop c (stop key')")
  then have "snd (Collection_getitem c key) = c1"
    by (simp add: Collection_getitem_def key'_def [symmetric] split: option.splits sum.splits)
  with advances_getitem_loop [of c "stop key'"] l show ?thesis by simp
qed

lemma advances_getitem_row: "advances c (snd (getitem_row c i))"
  using advances_getitem [of c "IntKey i"]
  by (auto simp: getitem_row_def split: prod.splits sum.splits item.splits)

lemma advances_first: "advances c (snd (Collection_first c d as_dict ordered))"
  using advances_getitem_row [of c 0]
  by (auto simp: Collection_first_def split: prod.splits sum.splits)

lemma advances_one: "advances c (snd (Collection_one c d as_dict ordered))"
proof -
  obtain res c1 where g: "getitem_row c 1 = (res, c1)" by (cases "getitem_row c 1")
  then have a: "advances c c1" using advances_getitem_row [of c 1] by simp
  have b: "advances c1 (snd (Collection_first c1 d as_dict ordered))" by (rule advances_first)
  from a advances_trans [OF a b] g show ?thesis
    by (auto simp: Collection_one_def split: sum.splits)
qed

lemma advances_scalar: "advances c (snd (Collection_scalar c d))"
  using advances_one [of c PyNone False False]
  by (auto simp: Collection_scalar_def split: prod.splits sum.splits pyobj.splits)

lemma advances_gen_next: "advances c (fst (snd (gen_next c g)))"
  using advances_getitem_row [of c "int (gen_i g)"] advances_next [of c]
  by (auto simp: gen_next_def advances_refl split: prod.splits sum.splits)

lemma advances_list_loop: "advances c (snd (list_loop c g acc))"
proof (induction c g acc rule: list_loop.induct)
  case (1 self g acc)
  obtain res self' g' where n: "gen_next self g = (res, self', g')"
    by (cases "gen_next self g")
  then have a: "advances self self'" using advances_gen_next [of self g] by simp
  show ?case
  proof (cases res)
    case (Inl e)
    with n a show ?thesis by (subst list_loop.simps) simp
  next
    case (Inr r)
    have "advances self' (snd (list_loop self' g' (acc @ [r])))"
      using "1.IH" [OF n [symmetric] Inr refl] .
    with a have "advances self (snd (list_loop self' g' (acc @ [r])))"
      by (rule advances_trans)
    moreover have "list_loop self g acc = list_loop self' g' (acc @ [r])"
      using n Inr by (subst list_loop.simps) simp
    ultimately show ?thesis by simp
  qed
qed

lemma advances_all: "advances c (snd (Collection_all c as_dict ordered))"
  using advances_list_loop [of c Collection_iter "[]"]
  by (auto simp: Collection_all_def split: prod.splits sum.splits)

lemma consistent_init: "consistent xs (Collection_init (py_iter xs))"
  by (simp add: consistent_def Collection_init_def py_iter_def)

lemma advance_exhausted:
  "remaining (rows c) = [] \<Longrightarrow>
     advance c = c\<lparr>rows := (rows c)\<lparr>pulls := Suc (pulls (rows c))\<rparr>, pending := False\<rparr>"
  by (simp add: advance_def Collection_next_exhausted)

lemma advance_record:
  "remaining (rows c) = r # rs \<Longrightarrow>
     advance c = c\<lparr>rows := (rows c)\<lparr>remaining := rs, pulls := Suc (pulls (rows c))\<rparr>,
                 all_rows := all_rows c @ [r]\<rparr>"
  by (simp add: advance_def Collection_next_record)

lemma consistent_advance:
  assumes "consistent xs c"
  shows "consistent xs (advance c)"
proof (cases "remaining (rows c)")
  case Nil
  with assms show ?thesis
    by (auto simp: consistent_def advance_exhausted split: if_splits)
next
  case (Cons r rs)
  with assms show ?thesis
    by (auto simp: consistent_def advance_record split: if_splits)
qed

lemma grows_advance:
  "prefix (all_rows c) (all_rows (advance c))
   \<and> pulls (rows c) \<le> pulls (rows (advance c))
   \<and> length (remaining (rows (advance c))) \<le> length (remaining (rows c))"
proof (cases "remaining (rows c)")
  case Nil
  then show ?thesis by (simp add: advance_exhausted)
next
  case (Cons r rs)
  then show ?thesis by (simp add: advance_record)
qed

lemma advances_induct [consumes 1, case_names refl step]:
  assumes "advances c c'"
    and "P c"
    and "\<And>d. advances c d \<Longrightarrow> P d \<Longrightarrow> P (advance d)"
  shows "P c'"
proof -
  from assms(1) obtain n where n: "c' = (advance ^^ n) c" unfolding advances_def ..
  have "P ((advance ^^ k) c) \<and> advances c ((advance ^^ k) c)" for k
  proof (induction k)
    case 0
    show ?case using assms(2) by (simp add: advances_refl)
  next
    case (Suc k)
    then have p: "P ((advance ^^ k) c)" and a: "advances c ((advance ^^ k) c)" by simp_all
    from a p have "P (advance ((advance ^^ k) c))" by (rule assms(3))
    moreover from a advances_step have "advances c (advance ((advance ^^ k) c))"
      by (rule advances_trans)
    ultimately show ?case by simp
  qed
  with n show ?thesis by simp
qed

lemma consistent_advances:
  "advances c c' \<Longrightarrow> consistent xs c \<Longrightarrow> consistent xs c'"
  by (induction rule: advances_induct) (simp_all add: consistent_advance)

lemma grows_advances:
  assumes "advances c c'"
  shows "prefix (all_rows c) (all_rows c')"
    and "pulls (rows c) \<le> pulls (rows c')"
    and "length (remaining (rows c')) \<le> length (remaining (rows c))"
proof -
  from assms have "prefix (all_rows c) (all_rows c')
      \<and> pulls (rows c) \<le> pulls (rows c')
      \<and> length (remaining (rows c')) \<le> length (remaining (rows c))"
  proof (induction rule: advances_induct)
    case refl
    show ?case by simp
  next
    case (step d)
    with grows_advance [of d] show ?case
      by (meson prefix_order.order_trans le_trans)
  qed
  then show "prefix (all_rows c) (all_rows c')"
    and "pulls (rows c) \<le> pulls (rows c')"
    and "length (remaining (rows c')) \<le> length (remaining (rows c))" by simp_all
qed

lemma run_Nil: "run s [] = s"
  by (simp add: run_def)

lemma run_snoc: "run s (ops @ [op]) = exec (run s ops) op"
  by (simp add: run_def)

lemma run_append: "run s (ops @ ops') = run (run s ops) ops'"
  by (simp add: run_def)

lemma advances_exec: "advances (coll s) (coll (exec s op))"
proof (cases op)
  case (OpGenNext k)
  show ?thesis
  proof (cases "k < length (gens s)")
    case True
    obtain res c' g' where n: "gen_next (coll s) (gens s ! k) = (res, c', g')"
      by (cases "gen_next (coll s) (gens s ! k)")
    with advances_gen_next [of "coll s" "gens s ! k"] have "advances (coll s) c'" by simp
    with n True OpGenNext show ?thesis by (cases res) simp_all
  next
    case False
    with OpGenNext show ?thesis by (simp add: advances_refl)
  qed
qed (simp_all add: advances_next advances_getitem advances_first advances_one
       advances_scalar advances_all advances_refl)

lemma advances_run: "advances (coll s) (coll (run s ops))"
proof (induction ops rule: rev_induct)
  case Nil
  show ?case by (simp add: run_Nil advances_refl)
next
  case (snoc op ops)
  from snoc advances_exec [of "run s ops" op] show ?case
    unfolding run_snoc by (rule advances_trans)
qed

lemma consistent_run: "consistent xs (coll (run (session_init xs m) ops))"
proof -
  have "consistent xs (coll (session_init xs m))"
    by (simp add: session_init_def consistent_init)
  with advances_run show ?thesis by (rule consistent_advances)
qed

section \<open>Generators\<close>

lemma gen_next_done:
  "gen_done g \<Longrightarrow> gen_next c g = (Inl (Exc StopIteration []), c, g)"
  by (simp add: gen_next_def)

lemma gen_next_cached:
  assumes "\<not> gen_done g" "gen_i g < length (all_rows c)"
  shows "gen_next c g = (Inr (all_rows c ! gen_i g), c, g\<lparr>gen_i := Suc (gen_i g)\<rparr>)"
proof -
  from assms(2) have "getitem_loop c (Some (int (gen_i g) + 1)) = (None, c)"
    by (intro getitem_loop_filled) simp
  with assms(2) have "getitem_row c (int (gen_i g)) = (Inr (all_rows c ! gen_i g), c)"
    by (simp add: getitem_row_nonneg nth_append)
  with assms show ?thesis by (simp add: gen_next_def Collection_len_def)
qed

lemma gen_next_pull:
  assumes "\<not> gen_done g" "\<not> gen_i g < length (all_rows c)" "remaining (rows c) = r # rs"
  shows "gen_next c g = (Inr r, advance c, g\<lparr>gen_i := Suc (gen_i g)\<rparr>)"
  using assms
  by (simp add: gen_next_def Collection_len_def advance_def Collection_next_record)

lemma gen_next_end:
  assumes "\<not> gen_done g" "\<not> gen_i g < length (all_rows c)" "remaining (rows c) = []"
  shows "gen_next c g = (Inl (Exc StopIteration []), advance c, g\<lparr>gen_done := True\<rparr>)"
  using assms
  by (simp add: gen_next_def Collection_len_def advance_def Collection_next_exhausted)

text \<open>\<^verbatim>\<open>list(self)\<close> from a generator that has read the first \<open>gen_i g\<close> records.\<close>

lemma list_loop_rest:
  "\<not> gen_done g \<Longrightarrow> gen_i g \<le> length (all_rows c) \<Longrightarrow>
     fst (list_loop c g acc) = Inr (acc @ drop (gen_i g) (all_rows c @ remaining (rows c)))
   \<and> all_rows (snd (list_loop c g acc)) = all_rows c @ remaining (rows c)
   \<and> remaining (rows (snd (list_loop c g acc))) = []"
proof (induction c g acc rule: list_loop.induct)
  case (1 self g acc)
  note nd = \<open>\<not> gen_done g\<close> and le = \<open>gen_i g \<le> length (all_rows self)\<close>
  show ?case
  proof (cases "gen_i g < length (all_rows self)")
    case True
    define g' where "g' = g\<lparr>gen_i := Suc (gen_i g)\<rparr>"
    have n: "gen_next self g = (Inr (all_rows self ! gen_i g), self, g')"
      unfolding g'_def using nd True by (rule gen_next_cached)
    have g': "\<not> gen_done g'" "gen_i g' \<le> length (all_rows self)" "gen_i g' = Suc (gen_i g)"
      using nd True by (simp_all add: g'_def)
    have step: "list_loop self g acc = list_loop self g' (acc @ [all_rows self ! gen_i g])"
      using n by (subst list_loop.simps) simp
    have d: "all_rows self ! gen_i g # drop (Suc (gen_i g)) (all_rows self @ remaining (rows self))
              = drop (gen_i g) (all_rows self @ remaining (rows self))"
      using True by (simp add: Cons_nth_drop_Suc [symmetric] nth_append)
    from "1.IH" [OF n [symmetric] refl refl g'(1) g'(2)]
    show ?thesis unfolding step g'(3) using d by simp
  next
    case False
    with le have eq: "gen_i g = length (all_rows self)" by simp
    show ?thesis
    proof (cases "remaining (rows self)")
      case Nil
      have n: "gen_next self g = (Inl (Exc StopIteration []), advance self, g\<lparr>gen_done := True\<rparr>)"
        using nd False Nil by (rule gen_next_end)
      have "list_loop self g acc = (Inr acc, advance self)"
        using n by (subst list_loop.simps) simp
      with Nil eq show ?thesis by (simp add: advance_exhausted)
    next
      case (Cons r rs)
      define g' where "g' = g\<lparr>gen_i := Suc (gen_i g)\<rparr>"
      have n: "gen_next self g = (Inr r, advance self, g')"
        unfolding g'_def using nd False Cons by (rule gen_next_pull)
      have a: "all_rows (advance self) = all_rows self @ [r]"
        "remaining (rows (advance self)) = rs"
        using Cons by (simp_all add: advance_record)
      have g': "\<not> gen_done g'" "gen_i g' \<le> length (all_rows (advance self))"
        "gen_i g' = Suc (length (all_rows self))"
        using nd eq a by (simp_all add: g'_def)
      have step: "list_loop self g acc = list_loop (advance self) g' (acc @ [r])"
        using n by (subst list_loop.simps) simp
      from "1.IH" [OF n [symmetric] refl refl g'(1) g'(2)]
      show ?thesis unfolding step g'(3) a eq Cons by simp
    qed
  qed
qed

lemma list_loop_fresh:
  "fst (list_loop c Collection_iter []) = Inr (all_rows c @ remaining (rows c))"
  using list_loop_rest [of Collection_iter c "[]"] by (simp add: Collection_iter_def)

lemma gen_ok_advances:
  assumes "gen_ok xs c n g ys" "advances c c'"
  shows "gen_ok xs c' n g ys"
proof -
  from grows_advances [OF assms(2)]
  have p: "prefix (all_rows c) (all_rows c')"
    and r: "length (remaining (rows c')) \<le> length (remaining (rows c))" by simp_all
  from p have "length (all_rows c) \<le> length (all_rows c')" by (rule prefix_length_le)
  with assms(1) r show ?thesis by (auto simp: gen_ok_def split: if_splits)
qed

lemma gen_ok_step:
  assumes con: "consistent xs c"
    and ok: "gen_ok xs c n g ys"
    and nx: "gen_next c g = (res, c', g')"
  shows "gen_ok xs c' (Suc n) g' (case res of Inr r \<Rightarrow> ys @ [r] | Inl e \<Rightarrow> ys)"
proof -
  from con have xs: "xs = all_rows c @ remaining (rows c)" by (simp add: consistent_def)
  show ?thesis
  proof (cases "gen_done g")
    case True
    with nx have "res = Inl (Exc StopIteration [])" "c' = c" "g' = g"
      by (auto simp: gen_next_done)
    with ok True show ?thesis by (auto simp: gen_ok_def)
  next
    case nd: False
    with ok have n: "gen_i g = n" "n \<le> length xs" "n \<le> length (all_rows c)" "ys = take n xs"
      by (auto simp: gen_ok_def)
    show ?thesis
    proof (cases "n < length (all_rows c)")
      case True
      with nd n(1) nx have r: "res = Inr (all_rows c ! n)" "c' = c" "g' = g\<lparr>gen_i := Suc n\<rparr>"
        by (auto simp: gen_next_cached)
      from True xs have lt: "n < length xs" and nth: "all_rows c ! n = xs ! n"
        by (simp_all add: nth_append)
      from lt have "take (Suc n) xs = take n xs @ [xs ! n]" by (rule take_Suc_conv_app_nth)
      with r n nd True lt nth show ?thesis by (simp add: gen_ok_def)
    next
      case False
      with n(3) have eq: "n = length (all_rows c)" by simp
      show ?thesis
      proof (cases "remaining (rows c)")
        case Nil
        with nd False n(1) nx have r: "res = Inl (Exc StopIteration [])" "c' = advance c"
          "g' = g\<lparr>gen_done := True\<rparr>"
          by (auto simp: gen_next_end)
        from Nil xs eq have "n = length xs" by simp
        with r n Nil eq show ?thesis by (simp add: gen_ok_def advance_exhausted)
      next
        case (Cons r rs)
        with nd False n(1) nx have res: "res = Inr r" "c' = advance c"
          "g' = g\<lparr>gen_i := Suc n\<rparr>"
          by (auto simp: gen_next_pull)
        from Cons xs eq have lt: "n < length xs" and nth: "xs ! n = r" by simp_all
        from lt have "take (Suc n) xs = take n xs @ [xs ! n]" by (rule take_Suc_conv_app_nth)
        with res n nd Cons eq lt nth show ?thesis by (simp add: gen_ok_def advance_record)
      qed
    qed
  qed
qed

lemma session_inv_init: "session_inv xs m [] (session_init xs m)"
proof -
  have "all_rows (Collection_init (py_iter xs)) = []" by (simp add: Collection_init_def)
  then show ?thesis
    by (simp add: session_inv_def session_init_def consistent_init gen_ok_def
        Collection_iter_def)
qed

lemma exec_call:
  "(\<And>k. op \<noteq> OpGenNext k) \<Longrightarrow> gens (exec s op) = gens s \<and> yielded (exec s op) = yielded s"
  by (cases op) auto

lemma session_inv_exec:
  assumes inv: "session_inv xs m ops s"
  shows "session_inv xs m (ops @ [op]) (exec s op)"
proof -
  from inv have len: "length (gens s) = m" "length (yielded s) = m"
    and con: "consistent xs (coll s)"
    and ok: "\<And>k. k < m \<Longrightarrow>
          gen_ok xs (coll s) (count_list ops (OpGenNext k)) (gens s ! k) (yielded s ! k)"
    by (simp_all add: session_inv_def)
  have adv: "advances (coll s) (coll (exec s op))" by (rule advances_exec)
  then have con': "consistent xs (coll (exec s op))" using con by (rule consistent_advances)
  have same: "gen_ok xs (coll (exec s op)) (count_list (ops @ [op]) (OpGenNext k))
                (gens s ! k) (yielded s ! k)"
    if "k < m" "op \<noteq> OpGenNext k" for k
  proof -
    from that(2) have "count_list (ops @ [op]) (OpGenNext k) = count_list ops (OpGenNext k)"
      by simp
    with gen_ok_advances [OF ok [OF that(1)] adv] show ?thesis by simp
  qed
  show ?thesis
  proof (cases "\<exists>j. op = OpGenNext j \<and> j < m")
    case False
    have unchanged: "gens (exec s op) = gens s \<and> yielded (exec s op) = yielded s"
    proof (cases "\<exists>j. op = OpGenNext j")
      case True
      then obtain j where "op = OpGenNext j" ..
      with False len show ?thesis by simp
    next
      case False
      then show ?thesis by (intro exec_call) blast
    qed
    have "gen_ok xs (coll (exec s op)) (count_list (ops @ [op]) (OpGenNext k))
                (gens (exec s op) ! k) (yielded (exec s op) ! k)" if "k < m" for k
    proof -
      from False that have "op \<noteq> OpGenNext k" by blast
      from same [OF that this] unchanged show ?thesis by simp
    qed
    with len con' unchanged show ?thesis by (simp add: session_inv_def)
  next
    case True
    then obtain j where op: "op = OpGenNext j" and j: "j < m" by blast
    obtain res c' g' where nx: "gen_next (coll s) (gens s ! j) = (res, c', g')"
      by (cases "gen_next (coll s) (gens s ! j)")
    have ex: "coll (exec s op) = c'" "gens (exec s op) = (gens s)[j := g']"
      "yielded (exec s op)
         = (yielded s)[j := (case res of Inr r \<Rightarrow> yielded s ! j @ [r] | Inl e \<Rightarrow> yielded s ! j)]"
      using op j len nx by (cases res; simp)+
    have "gen_ok xs (coll (exec s op)) (count_list (ops @ [op]) (OpGenNext k))
                (gens (exec s op) ! k) (yielded (exec s op) ! k)" if "k < m" for k
    proof (cases "k = j")
      case True
      have "count_list (ops @ [op]) (OpGenNext j) = Suc (count_list ops (OpGenNext j))"
        using op by simp
      with gen_ok_step [OF con ok [OF j] nx] True j len ex show ?thesis by simp
    next
      case False
      with op have "op \<noteq> OpGenNext k" by simp
      from same [OF that this] False ex show ?thesis by simp
    qed
    with len con' ex show ?thesis by (simp add: session_inv_def)
  qed
qed

lemma session_inv_run: "session_inv xs m ops (run (session_init xs m) ops)"
proof (induction ops rule: rev_induct)
  case Nil
  show ?case by (simp add: run_Nil session_inv_init)
next
  case (snoc op ops)
  then show ?case unfolding run_snoc by (rule session_inv_exec)
qed

lemma list_getslice_bounded:
  assumes "0 \<le> (case s of None \<Rightarrow> 0 | Some a \<Rightarrow> a)" "0 \<le> b"
  shows "list_getslice ys (Slice s (Some b) None)
           = Inr (take (nat b - nat (case s of None \<Rightarrow> 0 | Some a \<Rightarrow> a))
                    (drop (nat (case s of None \<Rightarrow> 0 | Some a \<Rightarrow> a)) ys))"
proof (cases s)
  case None
  with assms show ?thesis by (simp add: list_getslice_from_start)
next
  case (Some a)
  with assms show ?thesis by (simp add: list_getslice_plain)
qed

lemma is_exception_iff:
  "is_exception d = ((\<exists>e. d = PyExcInstance e) \<or> (\<exists>cl. d = PyClass (ExceptionClass cl)))"
proof (cases d)
  case (PyClass k)
  then show ?thesis
    by (cases k)
       (simp_all add: is_exception_def isinstance_Exception_def isclass_def
          issubclass_Exception_def)
qed (simp_all add: is_exception_def isinstance_Exception_def isclass_def
       issubclass_Exception_def)

section \<open>The claims about Collection\<close>

text \<open>
  C1. Any number of generators are made from one Collection over a finite producer of the
  records \<open>xs\<close>, and they are stepped in any order, interleaved with any other calls on
  the Collection. After every such sequence of operations the generator \<open>k\<close> has yielded
  the first \<open>n\<close> records of \<open>xs\<close> in their original order, where \<open>n\<close> is the number of times
  it was stepped: all of \<open>xs\<close> once \<open>n\<close> reaches the length. It has ended exactly when it
  was stepped more often than there are records. So the \<open>j\<close>-th record yielded is the
  same for every generator, whichever of them made the Collection pull it.
\<close>

theorem interleaved_iterations:
  assumes "k < m"
  shows "yielded (run (session_init xs m) ops) ! k = take (count_list ops (OpGenNext k)) xs
       \<and> gen_done (gens (run (session_init xs m) ops) ! k)
           = (length xs < count_list ops (OpGenNext k))
       \<and> (\<forall>j < length (yielded (run (session_init xs m) ops) ! k).
             yielded (run (session_init xs m) ops) ! k ! j = xs ! j)"
proof -
  from session_inv_run [of xs m ops] assms
  have y: "yielded (run (session_init xs m) ops) ! k = take (count_list ops (OpGenNext k)) xs"
    and d: "gen_done (gens (run (session_init xs m) ops) ! k)
           = (length xs < count_list ops (OpGenNext k))"
    by (simp_all add: session_inv_def gen_ok_def)
  have "\<forall>j < length (yielded (run (session_init xs m) ops) ! k).
             yielded (run (session_init xs m) ops) ! k ! j = xs ! j"
    unfolding y by simp
  with y d show ?thesis by blast
qed

theorem interleaved_iterations_witness:
  "(0::nat) < 2 \<and> (1::nat) < 2
   \<and> yielded (run (session_init [test_record 0, test_record 1, test_record 2] 2)
        [OpGenNext 0, OpGenNext 1, OpGenNext 1, OpGenNext 0]) ! 0
       = [test_record 0, test_record 1]
   \<and> yielded (run (session_init [test_record 0, test_record 1, test_record 2] 2)
        [OpGenNext 0, OpGenNext 1, OpGenNext 1, OpGenNext 0]) ! 1
       = [test_record 0, test_record 1]"
proof -
  let ?xs = "[test_record 0, test_record 1, test_record 2]"
  let ?ops = "[OpGenNext 0, OpGenNext 1, OpGenNext 1, OpGenNext 0] :: int op list"
  have h0: "(0::nat) < 2" and h1: "(1::nat) < 2" by simp_all
  have e0: "take (count_list ?ops (OpGenNext 0)) ?xs = [test_record 0, test_record 1]"
    by code_simp
  have e1: "take (count_list ?ops (OpGenNext 1)) ?xs = [test_record 0, test_record 1]"
    by code_simp
  from interleaved_iterations [OF h0, of ?xs ?ops] e0
  have a: "yielded (run (session_init ?xs 2) ?ops) ! 0 = [test_record 0, test_record 1]"
    by simp
  from interleaved_iterations [OF h1, of ?xs ?ops] e1
  have b: "yielded (run (session_init ?xs 2) ?ops) ! 1 = [test_record 0, test_record 1]"
    by simp
  from h0 h1 a b show ?thesis by blast
qed

text \<open>
  C2, as the code has it. For a Collection over a producer of the \<open>N\<close> records \<open>xs\<close>, after
  any interleaving of calls and generator steps: the cache followed by what the producer
  still holds is \<open>xs\<close>, so every pull that returned a record returned the next record not
  yet cached, no record is pulled twice and at most \<open>N\<close> pulls return a record. While
  \<^verbatim>\<open>pending\<close> is true the number of pulls is the length of the cache. Once \<^verbatim>\<open>pending\<close> is
  false the producer is empty and has been pulled more than \<open>N\<close> times: every pull beyond
  the \<open>N\<close>-th was answered with \<^verbatim>\<open>StopIteration\<close>, and their number is not bounded by one.
\<close>

theorem pulls_account:
  "all_rows (coll (run (session_init xs m) ops))
     @ remaining (rows (coll (run (session_init xs m) ops))) = xs
   \<and> length (all_rows (coll (run (session_init xs m) ops))) \<le> length xs
   \<and> (if pending (coll (run (session_init xs m) ops))
      then pulls (rows (coll (run (session_init xs m) ops)))
             = length (all_rows (coll (run (session_init xs m) ops)))
      else remaining (rows (coll (run (session_init xs m) ops))) = []
         \<and> length xs < pulls (rows (coll (run (session_init xs m) ops))))"
proof -
  define c where "c = coll (run (session_init xs m) ops)"
  have "consistent xs c" unfolding c_def by (rule consistent_run)
  then have a: "all_rows c @ remaining (rows c) = xs"
    and b: "if pending c then pulls (rows c) = length (all_rows c)
            else remaining (rows c) = [] \<and> length (all_rows c) < pulls (rows c)"
    by (simp_all add: consistent_def)
  from a have "length (all_rows c) \<le> length xs" by (metis length_append le_add1)
  moreover from a b have "if pending c then pulls (rows c) = length (all_rows c)
            else remaining (rows c) = [] \<and> length xs < pulls (rows c)"
    by (auto split: if_splits)
  ultimately show ?thesis using a unfolding c_def by blast
qed

theorem pulls_account_witness:
  "all_rows (coll (run (session_init [test_record 0] 2)
       [OpGenNext 0, OpGenNext 0, OpGenNext 1, OpGenNext 1]))
     @ remaining (rows (coll (run (session_init [test_record 0] 2)
       [OpGenNext 0, OpGenNext 0, OpGenNext 1, OpGenNext 1]))) = [test_record 0]
   \<and> length (all_rows (coll (run (session_init [test_record 0] 2)
       [OpGenNext 0, OpGenNext 0, OpGenNext 1, OpGenNext 1]))) \<le> length [test_record 0]"
  using pulls_account [of "[test_record 0]" 2
      "[OpGenNext 0, OpGenNext 0, OpGenNext 1, OpGenNext 1]"]
  by blast

text \<open>
  One record and two generators, each run to its end: the producer is pulled three times,
  not \<open>N + 1 = 2\<close> times, because each generator's last step asks the producer again.
\<close>

theorem pulls_account_counterexample:
  "pulls (rows (coll (run (session_init [test_record 0] 2)
       [OpGenNext 0, OpGenNext 0, OpGenNext 1, OpGenNext 1]))) = 3
   \<and> length [test_record 0] + 1 = 2"
  by code_simp

text \<open>
  C3. After any sequence of operations the cache is the first \<open>len(cache)\<close> records of the
  underlying sequence, in order; and the cache after any further operations has the
  earlier cache as a prefix, so a populated position is never changed, removed or moved.
\<close>

theorem cache_is_stable_prefix:
  "all_rows (coll (run (session_init xs m) ops))
     = take (length (all_rows (coll (run (session_init xs m) ops)))) xs
   \<and> prefix (all_rows (coll (run (session_init xs m) ops)))
            (all_rows (coll (run (session_init xs m) (ops @ ops'))))"
proof
  from consistent_run [of xs m ops]
  have "all_rows (coll (run (session_init xs m) ops))
          @ remaining (rows (coll (run (session_init xs m) ops))) = xs"
    by (simp add: consistent_def)
  then show "all_rows (coll (run (session_init xs m) ops))
     = take (length (all_rows (coll (run (session_init xs m) ops)))) xs"
    by (metis append_eq_conv_conj)
next
  show "prefix (all_rows (coll (run (session_init xs m) ops)))
            (all_rows (coll (run (session_init xs m) (ops @ ops'))))"
    unfolding run_append by (rule grows_advances(1) [OF advances_run])
qed

theorem cache_is_stable_prefix_witness:
  "all_rows (coll (run (session_init [test_record 0, test_record 1, test_record 2] 1)
       [OpGetitem (IntKey 1)])) = [test_record 0, test_record 1]
   \<and> prefix
        (all_rows (coll (run (session_init [test_record 0, test_record 1, test_record 2] 1)
           [OpGetitem (IntKey 1)])))
        (all_rows (coll (run (session_init [test_record 0, test_record 1, test_record 2] 1)
           ([OpGetitem (IntKey 1)] @ [OpAll False False, OpGenNext 0]))))"
proof -
  let ?xs = "[test_record 0, test_record 1, test_record 2]"
  have e: "all_rows (coll (run (session_init ?xs 1) [OpGetitem (IntKey 1)]))
             = [test_record 0, test_record 1]"
    by code_simp
  from cache_is_stable_prefix [of ?xs 1 "[OpGetitem (IntKey 1)]"
      "[OpAll False False, OpGenNext 0]"] e
  show ?thesis by blast
qed

text \<open>
  C4, as the code has it. For a slice with a start that is absent or not negative, a stop
  \<open>b \<ge> 0\<close> and no step, \<^verbatim>\<open>__getitem__\<close> first fills the cache up to \<open>b\<close> records (or to
  exhaustion) and returns a new Collection made by \<^verbatim>\<open>Collection(iter(rows))\<close> from the
  list \<^verbatim>\<open>cache[start:stop]\<close>: its producer is a fresh iterator that still holds these
  records, its cache is empty and its \<^verbatim>\<open>pending\<close> flag is true. Iterating the new
  Collection yields exactly \<^verbatim>\<open>cache[start:stop]\<close>, and the original Collection, iterated
  afterwards, still yields all of its records.
\<close>

theorem slice_bounded:
  assumes "0 \<le> (case s of None \<Rightarrow> 0 | Some a \<Rightarrow> a)" "0 \<le> b"
  shows "\<exists>c' rows'.
           Collection_getitem c (SliceKey (Slice s (Some b) None))
             = (Inr (Sliced (Collection_init (py_iter rows'))), c')
         \<and> all_rows c' = all_rows c @ take (nat b - length (all_rows c)) (remaining (rows c))
         \<and> remaining (rows c') = drop (nat b - length (all_rows c)) (remaining (rows c))
         \<and> rows' = take (nat b - nat (case s of None \<Rightarrow> 0 | Some a \<Rightarrow> a))
                      (drop (nat (case s of None \<Rightarrow> 0 | Some a \<Rightarrow> a)) (all_rows c'))
         \<and> pending (Collection_init (py_iter rows'))
         \<and> all_rows (Collection_init (py_iter rows')) = []
         \<and> remaining (rows (Collection_init (py_iter rows'))) = rows'
         \<and> fst (list_loop (Collection_init (py_iter rows')) Collection_iter []) = Inr rows'
         \<and> fst (list_loop c' Collection_iter []) = Inr (all_rows c @ remaining (rows c))"
proof -
  define c' where "c' = snd (getitem_loop c (Some b))"
  define rows' where "rows' = take (nat b - nat (case s of None \<Rightarrow> 0 | Some a \<Rightarrow> a))
                      (drop (nat (case s of None \<Rightarrow> 0 | Some a \<Rightarrow> a)) (all_rows c'))"
  from getitem_loop_Some [OF refl, of c b]
  have l: "getitem_loop c (Some b) = (None, c')"
    and a: "all_rows c' = all_rows c @ take (nat b - length (all_rows c)) (remaining (rows c))"
    and r: "remaining (rows c') = drop (nat b - length (all_rows c)) (remaining (rows c))"
    by (simp_all add: c'_def prod_eq_iff)
  have sl: "list_getslice (all_rows c') (Slice s (Some b) None) = Inr rows'"
    unfolding rows'_def using assms by (rule list_getslice_bounded)
  have g: "Collection_getitem c (SliceKey (Slice s (Some b) None))
             = (Inr (Sliced (Collection_init (py_iter rows'))), c')"
    using l sl by (simp add: Collection_getitem_def)
  have n: "pending (Collection_init (py_iter rows'))"
    "all_rows (Collection_init (py_iter rows')) = []"
    "remaining (rows (Collection_init (py_iter rows'))) = rows'"
    by (simp_all add: Collection_init_def py_iter_def)
  have i1: "fst (list_loop (Collection_init (py_iter rows')) Collection_iter []) = Inr rows'"
    using n by (simp add: list_loop_fresh)
  have i2: "fst (list_loop c' Collection_iter []) = Inr (all_rows c @ remaining (rows c))"
    using a r by (simp add: list_loop_fresh)
  from g a r n i1 i2 rows'_def show ?thesis by blast
qed

theorem slice_bounded_witness:
  "0 \<le> (case (None :: int option) of None \<Rightarrow> 0 | Some a \<Rightarrow> a) \<and> (0::int) \<le> 2
   \<and> fst (list_loop
        (snd (Collection_getitem
                (Collection_init (py_iter [test_record 0, test_record 1, test_record 2]))
                (SliceKey (Slice None (Some 2) None))))
        Collection_iter [])
       = Inr [test_record 0, test_record 1, test_record 2]
   \<and> fst (Collection_getitem
             (Collection_init (py_iter [test_record 0, test_record 1, test_record 2]))
             (SliceKey (Slice None (Some 2) None)))
       = Inr (Sliced (Collection_init (py_iter [test_record 0, test_record 1])))"
proof -
  let ?c = "Collection_init (py_iter [test_record 0, test_record 1, test_record 2])"
  have h1: "0 \<le> (case (None :: int option) of None \<Rightarrow> 0 | Some a \<Rightarrow> a)"
    and h2: "(0::int) \<le> 2" by simp_all
  from slice_bounded [OF h1 h2, of ?c] obtain c' rows'
    where g: "Collection_getitem ?c (SliceKey (Slice None (Some 2) None))
                = (Inr (Sliced (Collection_init (py_iter rows'))), c')"
      and i: "fst (list_loop c' Collection_iter []) = Inr (all_rows ?c @ remaining (rows ?c))"
    by blast
  have "all_rows ?c @ remaining (rows ?c) = [test_record 0, test_record 1, test_record 2]"
    by (simp add: Collection_init_def py_iter_def)
  with g i have a: "fst (list_loop
        (snd (Collection_getitem ?c (SliceKey (Slice None (Some 2) None))))
        Collection_iter [])
       = Inr [test_record 0, test_record 1, test_record 2]"
    by simp
  have b: "fst (Collection_getitem ?c (SliceKey (Slice None (Some 2) None)))
       = Inr (Sliced (Collection_init (py_iter [test_record 0, test_record 1])))"
    by code_simp
  from h1 h2 a b show ?thesis by blast
qed

text \<open>
  The Collection that \<^verbatim>\<open>rows[0:1]\<close> returns is pending, and its producer is not
  exhausted: it still holds the record of the slice.
\<close>

theorem slice_bounded_counterexample:
  "(case fst (Collection_getitem (Collection_init (py_iter [test_record 0, test_record 1]))
          (SliceKey (Slice (Some 0) (Some 1) None))) of
      Inr (Sliced c) \<Rightarrow> pending c \<and> remaining (rows c) = [test_record 0] \<and> all_rows c = []
    | _ \<Rightarrow> False)"
  by code_simp

text \<open>
  C5 fails on the code. With a stop of \<^verbatim>\<open>None\<close> the loop condition
  \<^verbatim>\<open>len(self) < key.stop or key.stop is None\<close> compares an int with \<^verbatim>\<open>None\<close> before the test
  for \<^verbatim>\<open>None\<close> is reached, so \<^verbatim>\<open>__getitem__\<close> raises \<^verbatim>\<open>TypeError\<close>, whatever the start and
  the step are: nothing is pulled and no Collection is returned.
\<close>

theorem Collection_getitem_unbounded_stop:
  "Collection_getitem c (SliceKey (Slice a None st)) =
     (Inl (Exc TypeError (quoted ''<'' @ '' not supported between instances of ''
                 @ quoted ''int'' @ '' and '' @ quoted ''NoneType'')), c)"
  by (simp add: Collection_getitem_def getitem_loop_None)

theorem Collection_getitem_unbounded_stop_witness:
  "Collection_getitem (Collection_init (py_iter [test_record 0, test_record 1]))
          (SliceKey (Slice (Some 1) None None))
     = (Inl (Exc TypeError (quoted ''<'' @ '' not supported between instances of ''
                 @ quoted ''int'' @ '' and '' @ quoted ''NoneType'')),
        Collection_init (py_iter [test_record 0, test_record 1]))"
  by (rule Collection_getitem_unbounded_stop)

text \<open>
  C6. On a Collection with two or more records (cached or still to come), \<^verbatim>\<open>self[1]\<close>
  finds the second record, and \<^verbatim>\<open>one\<close> raises the \<^verbatim>\<open>ValueError\<close> for more than one row
  whatever the default and the flags are. The Collection it leaves is the one that
  \<^verbatim>\<open>self[1]\<close> leaves: the check of index 1 comes first, and neither index 0 nor the default
  is looked at.
\<close>

theorem Collection_one_multiple_rows:
  assumes "2 \<le> length (all_rows c) + length (remaining (rows c))"
  shows "Collection_getitem c (IntKey 1)
           = (Inr (Row ((all_rows c @ remaining (rows c)) ! 1)),
              snd (getitem_loop c (Some 2)))
       \<and> Collection_one c d as_dict ordered
           = (Inl (Exc ValueError
                 ''Collection contains more than one row, exactly one row expected.''),
              snd (Collection_getitem c (IntKey 1)))"
proof -
  have g: "Collection_getitem c (IntKey 1)
           = (Inr (Row ((all_rows c @ remaining (rows c)) ! 1)),
              snd (getitem_loop c (Some 2)))"
    using assms Collection_getitem_nonneg [of 1 c] by simp
  then show ?thesis
    by (simp add: Collection_one_def getitem_row_def)
qed

theorem Collection_one_multiple_rows_witness:
  "2 \<le> length (all_rows (Collection_init (py_iter [test_record 0, test_record 1])))
        + length (remaining (rows (Collection_init (py_iter [test_record 0, test_record 1]))))
   \<and> fst (Collection_one (Collection_init (py_iter [test_record 0, test_record 1]))
            (PyClass (ExceptionClass ExceptionBase)) False False)
       = Inl (Exc ValueError
                 ''Collection contains more than one row, exactly one row expected.'')"
proof -
  let ?c = "Collection_init (py_iter [test_record 0, test_record 1])"
  have h: "2 \<le> length (all_rows ?c) + length (remaining (rows ?c))"
    by (simp add: Collection_init_def py_iter_def)
  from Collection_one_multiple_rows [OF h, of "PyClass (ExceptionClass ExceptionBase)" False False]
  have "fst (Collection_one ?c (PyClass (ExceptionClass ExceptionBase)) False False)
       = Inl (Exc ValueError
                 ''Collection contains more than one row, exactly one row expected.'')"
    by simp
  with h show ?thesis by blast
qed

text \<open>
  C7, as the code has it. On an empty Collection \<^verbatim>\<open>first\<close> and \<^verbatim>\<open>one\<close> return the default
  when it is neither an exception instance nor a subclass of \<^verbatim>\<open>Exception\<close>, and otherwise
  execute \<^verbatim>\<open>raise default\<close>: an exception instance is raised as it is; a subclass of
  \<^verbatim>\<open>Exception\<close> is first called without arguments, and the instance it constructs is
  raised, or, when that call fails (a constructor that needs an argument fails with
  \<^verbatim>\<open>TypeError\<close>), the exception of the call is raised in its place. \<^verbatim>\<open>scalar\<close> returns its
  default in every case and never raises it. On a Collection with at least one record
  \<^verbatim>\<open>first\<close> returns the record at index 0 (its dictionary when \<^verbatim>\<open>as_dict\<close> is set).
\<close>

theorem first_one_scalar_defaults:
  fixes c :: "'v Collection" and d :: "'v pyobj"
  shows
  "(all_rows c = [] \<and> remaining (rows c) = [] \<longrightarrow>
      fst (Collection_first c d as_dict ordered)
        = (if is_exception d then Inl (raise d) else Inr d)
    \<and> fst (Collection_one c d as_dict ordered)
        = (if is_exception d then Inl (raise d) else Inr d)
    \<and> fst (Collection_scalar c d) = Inr d)
 \<and> (1 \<le> length (all_rows c) + length (remaining (rows c)) \<longrightarrow>
      fst (Collection_first c d False ordered)
        = Inr (PyRecord ((all_rows c @ remaining (rows c)) ! 0))
    \<and> fst (Collection_first c d True ordered)
        = Inr (Record_dict ((all_rows c @ remaining (rows c)) ! 0) ordered))
 \<and> is_exception d = ((\<exists>e. d = PyExcInstance e) \<or> (\<exists>cl. d = PyClass (ExceptionClass cl)))
 \<and> raise (PyExcInstance e :: 'v pyobj) = e
 \<and> raise (PyClass (ExceptionClass KeyError) :: 'v pyobj) = Exc KeyError []
 \<and> raise (PyClass (ExceptionClass IndexError) :: 'v pyobj) = Exc IndexError []
 \<and> raise (PyClass (ExceptionClass StopIteration) :: 'v pyobj) = Exc StopIteration []
 \<and> raise (PyClass (ExceptionClass ValueError) :: 'v pyobj) = Exc ValueError []
 \<and> raise (PyClass (ExceptionClass TypeError) :: 'v pyobj) = Exc TypeError []
 \<and> raise (PyClass (ExceptionClass AssertionError) :: 'v pyobj) = Exc AssertionError []
 \<and> raise (PyClass (ExceptionClass ExceptionBase) :: 'v pyobj) = Exc ExceptionBase []
 \<and> raise (PyClass (ExceptionClass (UserException name (Constructs msg))) :: 'v pyobj)
       = Exc (UserException name (Constructs msg)) msg
 \<and> raise (PyClass (ExceptionClass (UserException name (Fails err))) :: 'v pyobj) = err"
proof (intro conjI impI)
  assume e: "all_rows c = [] \<and> remaining (rows c) = []"
  then have e1: "all_rows c = []" and e2: "remaining (rows c) = []" by simp_all
  show "fst (Collection_first c d as_dict ordered)
        = (if is_exception d then Inl (raise d) else Inr d)"
    using e1 e2 by (rule Collection_first_empty)
  show "fst (Collection_one c d as_dict ordered)
        = (if is_exception d then Inl (raise d) else Inr d)"
    using e1 e2 by (rule Collection_one_empty)
  show "fst (Collection_scalar c d) = Inr d"
    using e1 e2 by (rule Collection_scalar_empty)
next
  assume "1 \<le> length (all_rows c) + length (remaining (rows c))"
  then show "fst (Collection_first c d False ordered)
        = Inr (PyRecord ((all_rows c @ remaining (rows c)) ! 0))"
    by (rule Collection_first_record)
next
  assume "1 \<le> length (all_rows c) + length (remaining (rows c))"
  then show "fst (Collection_first c d True ordered)
        = Inr (Record_dict ((all_rows c @ remaining (rows c)) ! 0) ordered)"
    by (rule Collection_first_dict)
next
  show "is_exception d = ((\<exists>e. d = PyExcInstance e) \<or> (\<exists>cl. d = PyClass (ExceptionClass cl)))"
    by (rule is_exception_iff)
qed (simp_all add: raise_def instantiate_def)

theorem first_one_scalar_defaults_witness:
  "all_rows (Collection_init (py_iter [])) = ([] :: int Record list)
   \<and> remaining (rows (Collection_init (py_iter []))) = ([] :: int Record list)
   \<and> fst (Collection_first (Collection_init (py_iter [])) (PyValue (7::int)) False False)
       = Inr (PyValue 7)
   \<and> fst (Collection_one (Collection_init (py_iter []))
            (PyExcInstance (Exc ValueError ''testing'') :: int pyobj) False False)
       = Inl (Exc ValueError ''testing'')
   \<and> fst (Collection_first (Collection_init (py_iter []))
            (PyClass (ExceptionClass (UserException ''NeedsArg''
               (Fails (Exc TypeError ''missing 1 required positional argument''))))
             :: int pyobj) False False)
       = Inl (Exc TypeError ''missing 1 required positional argument'')
   \<and> fst (Collection_scalar (Collection_init (py_iter [])) (PyValue (7::int)))
       = Inr (PyValue 7)
   \<and> 1 \<le> length (all_rows (Collection_init (py_iter [test_record 0])))
          + length (remaining (rows (Collection_init (py_iter [test_record 0]))))
   \<and> fst (Collection_first (Collection_init (py_iter [test_record 0])) PyNone False False)
       = Inr (PyRecord (test_record 0))"
proof -
  let ?e = "Collection_init (py_iter []) :: int Collection"
  let ?c = "Collection_init (py_iter [test_record 0])"
  let ?u = "PyClass (ExceptionClass (UserException ''NeedsArg''
               (Fails (Exc TypeError ''missing 1 required positional argument''))))
             :: int pyobj"
  have h1: "all_rows ?e = []" and h2: "remaining (rows ?e) = []"
    by (simp_all add: Collection_init_def py_iter_def)
  have h3: "1 \<le> length (all_rows ?c) + length (remaining (rows ?c))"
    by (simp add: Collection_init_def py_iter_def)
  have v: "(all_rows ?c @ remaining (rows ?c)) ! 0 = test_record 0"
    by (simp add: Collection_init_def py_iter_def)
  from first_one_scalar_defaults [where c = ?e and d = "PyValue 7" and as_dict = False
      and ordered = False] h1 h2
  have a: "fst (Collection_first ?e (PyValue 7) False False) = Inr (PyValue 7)"
    and b: "fst (Collection_scalar ?e (PyValue 7)) = Inr (PyValue 7)"
    by simp_all
  from first_one_scalar_defaults [where c = ?e
      and d = "PyExcInstance (Exc ValueError ''testing'')" and as_dict = False
      and ordered = False and e = "Exc ValueError ''testing''"] h1 h2
  have c: "fst (Collection_one ?e (PyExcInstance (Exc ValueError ''testing'')) False False)
       = Inl (Exc ValueError ''testing'')"
    by simp
  from first_one_scalar_defaults [where c = ?e and d = ?u and as_dict = False
      and ordered = False and name = "''NeedsArg''"
      and err = "Exc TypeError ''missing 1 required positional argument''"] h1 h2
  have u: "fst (Collection_first ?e ?u False False)
       = Inl (Exc TypeError ''missing 1 required positional argument'')"
    by simp
  from first_one_scalar_defaults [where c = ?c and d = PyNone and ordered = False] h3 v
  have d: "fst (Collection_first ?c PyNone False False) = Inr (PyRecord (test_record 0))"
    by simp
  from h1 h2 a c u b h3 d show ?thesis by blast
qed

text \<open>
  On an empty Collection and with the class \<^verbatim>\<open>Exception\<close> as the default, \<^verbatim>\<open>first\<close> raises
  it, but \<^verbatim>\<open>scalar\<close> returns the class as its value.
\<close>

theorem first_one_scalar_defaults_counterexample:
  "is_exception (PyClass (ExceptionClass ExceptionBase) :: int pyobj)
   \<and> fst (Collection_first (Collection_init (py_iter []))
            (PyClass (ExceptionClass ExceptionBase) :: int pyobj) False False)
       = Inl (Exc ExceptionBase [])
   \<and> fst (Collection_scalar (Collection_init (py_iter []))
            (PyClass (ExceptionClass ExceptionBase) :: int pyobj))
       = Inr (PyClass (ExceptionClass ExceptionBase))"
  by code_simp

text \<open>
  C8, as the code has it. Once \<^verbatim>\<open>pending\<close> is false, in any state that a Collection over a
  finite producer can reach, \<^verbatim>\<open>__next__\<close> raises \<^verbatim>\<open>StopIteration\<close> and leaves the cache and
  the \<^verbatim>\<open>pending\<close> flag as they are; but it does ask the producer once more (the flag is
  not consulted), and the producer answers with \<^verbatim>\<open>StopIteration\<close> again.
\<close>

theorem next_after_exhaustion:
  assumes "\<not> pending (coll (run (session_init xs m) ops))"
  shows "Collection_next (coll (run (session_init xs m) ops))
           = (Inl (Exc StopIteration ''Collection contains no more rows.''),
              (coll (run (session_init xs m) ops))
                \<lparr>rows := (rows (coll (run (session_init xs m) ops)))
                   \<lparr>pulls := Suc (pulls (rows (coll (run (session_init xs m) ops))))\<rparr>\<rparr>)"
proof -
  define c where "c = coll (run (session_init xs m) ops)"
  have "consistent xs c" unfolding c_def by (rule consistent_run)
  with assms have e: "remaining (rows c) = []" by (simp add: consistent_def c_def)
  from assms have "c\<lparr>rows := (rows c)\<lparr>pulls := Suc (pulls (rows c))\<rparr>, pending := False\<rparr>
      = c\<lparr>rows := (rows c)\<lparr>pulls := Suc (pulls (rows c))\<rparr>\<rparr>"
    by (simp add: c_def)
  with Collection_next_exhausted [OF e] show ?thesis unfolding c_def by simp
qed

theorem next_after_exhaustion_witness:
  "\<not> pending (coll (run (session_init [test_record 0] 0) [OpNext, OpNext]))
   \<and> fst (Collection_next (coll (run (session_init [test_record 0] 0) [OpNext, OpNext])))
       = Inl (Exc StopIteration ''Collection contains no more rows.'')
   \<and> all_rows (snd (Collection_next
         (coll (run (session_init [test_record 0] 0) [OpNext, OpNext]))))
       = all_rows (coll (run (session_init [test_record 0] 0) [OpNext, OpNext]))
   \<and> pending (snd (Collection_next
         (coll (run (session_init [test_record 0] 0) [OpNext, OpNext]))))
       = pending (coll (run (session_init [test_record 0] 0) [OpNext, OpNext]))"
proof -
  let ?c = "coll (run (session_init [test_record 0] 0) [OpNext, OpNext])"
  have h: "\<not> pending ?c" by code_simp
  from next_after_exhaustion [OF h]
  have "fst (Collection_next ?c) = Inl (Exc StopIteration ''Collection contains no more rows.'')"
    and "all_rows (snd (Collection_next ?c)) = all_rows ?c"
    and "pending (snd (Collection_next ?c)) = pending ?c"
    by simp_all
  with h show ?thesis by blast
qed

text \<open>
  After the producer of one record is exhausted, a further \<^verbatim>\<open>__next__\<close> does pull from
  it: the producer's call count goes up.
\<close>

theorem next_after_exhaustion_counterexample:
  "\<not> pending (coll (run (session_init [test_record 0] 0) [OpNext, OpNext]))
   \<and> pulls (rows (coll (run (session_init [test_record 0] 0) [OpNext, OpNext]))) = 2
   \<and> pulls (rows (snd (Collection_next
         (coll (run (session_init [test_record 0] 0) [OpNext, OpNext]))))) = 3"
  by code_simp

end
